theory Spec2Isabelle
  imports Main "HOL-Library.FSet" "HOL-Library.Sublist" "HOL-Library.AList"
begin

section \<open>Python string primitives used by split.py\<close>

text \<open>
  A Python \<open>str\<close> is modelled as a \<open>string\<close>, one \<open>char\<close> per code point. The classes
  \<open>\w\<close>, \<open>\d\<close>, \<open>\s\<close> of the \<open>re\<close> module and \<open>str.lower\<close> are the ones Python has on
  the code points 0 to 255, which is all a \<open>char\<close> can hold.
\<close>

definition is_digit :: "char \<Rightarrow> bool" where
  \<comment> \<open>the class \<open>\d\<close>\<close>
  "is_digit c = (let n = (of_char c :: nat) in 48 \<le> n \<and> n \<le> 57)"

definition is_word :: "char \<Rightarrow> bool" where
  \<comment> \<open>the class \<open>\w\<close>: alphanumeric code points and the underscore\<close>
  "is_word c = (let n = (of_char c :: nat) in
     (48 \<le> n \<and> n \<le> 57) \<or> (65 \<le> n \<and> n \<le> 90) \<or> n = 95 \<or> (97 \<le> n \<and> n \<le> 122) \<or>
     n = 170 \<or> n = 178 \<or> n = 179 \<or> n = 181 \<or> n = 185 \<or> n = 186 \<or>
     (188 \<le> n \<and> n \<le> 190) \<or> (192 \<le> n \<and> n \<le> 214) \<or> (216 \<le> n \<and> n \<le> 246) \<or>
     248 \<le> n)"

definition is_space :: "char \<Rightarrow> bool" where
  \<comment> \<open>the class \<open>\s\<close>, also what \<open>str.strip()\<close> removes\<close>
  "is_space c = (let n = (of_char c :: nat) in
     (9 \<le> n \<and> n \<le> 13) \<or> (28 \<le> n \<and> n \<le> 32) \<or> n = 133 \<or> n = 160)"

definition lower_char :: "char \<Rightarrow> char" where
  "lower_char c = (let n = (of_char c :: nat) in
     if (65 \<le> n \<and> n \<le> 90) \<or> (192 \<le> n \<and> n \<le> 222 \<and> n \<noteq> 215)
     then char_of (n + 32) else c)"

definition lower :: "string \<Rightarrow> string" where
  "lower s = map lower_char s"

definition strip :: "string \<Rightarrow> string" where
  \<comment> \<open>\<open>s.strip()\<close>\<close>
  "strip s = rev (dropWhile is_space (rev (dropWhile is_space s)))"

definition strip_hyphen :: "string \<Rightarrow> string" where
  \<comment> \<open>\<open>s.strip('-')\<close>\<close>
  "strip_hyphen s =
     rev (dropWhile (\<lambda>c. c = CHR ''-'') (rev (dropWhile (\<lambda>c. c = CHR ''-'') s)))"

fun join_nl :: "string list \<Rightarrow> string" where
  \<comment> \<open>\<open>'\n'.join(ls)\<close>\<close>
  "join_nl [] = []"
| "join_nl [l] = l"
| "join_nl (l # m # ls) = l @ CHR 0x0A # join_nl (m # ls)"

fun split_nl :: "string \<Rightarrow> string list" where
  \<comment> \<open>\<open>s.split('\n')\<close>: never empty, \<open>''.split('\n') = ['']\<close>\<close>
  "split_nl [] = [[]]"
| "split_nl (c # cs) =
     (if c = CHR 0x0A then [] # split_nl cs
      else (case split_nl cs of l # ls \<Rightarrow> (c # l) # ls | [] \<Rightarrow> [[c]]))"

definition slice :: "'a list \<Rightarrow> nat \<Rightarrow> nat \<Rightarrow> 'a list" where
  \<comment> \<open>\<open>xs[s:e]\<close> for indices that are not negative; empty when \<open>e \<le> s\<close>\<close>
  "slice xs s e = take (e - s) (drop s xs)"

definition digit_char :: "nat \<Rightarrow> char" where
  "digit_char d = ''0123456789'' ! d"

fun str_nat :: "nat \<Rightarrow> string" where
  \<comment> \<open>the decimal numeral \<open>f"{n}"\<close>\<close>
  "str_nat n = (if n < 10 then [digit_char n]
                else str_nat (n div 10) @ [digit_char (n mod 10)])"

declare str_nat.simps [simp del]

fun nat_str :: "string \<Rightarrow> nat \<Rightarrow> nat" where
  \<comment> \<open>reads a decimal numeral back; only used to show that \<open>str_nat\<close> is injective\<close>
  "nat_str [] a = a"
| "nat_str (c # cs) a = nat_str cs (10 * a + (of_char c - 48))"

section \<open>Name Allocator: \<open>heading_to_name\<close>\<close>

definition match_id :: "string \<Rightarrow> string option" where
  \<comment> \<open>group 1 of \<open>re.match(r'^\w*?(\d+\w*)\W', heading_text)\<close>. The pattern consumes the
      longest run of word characters at the start of the text, which must be followed by
      one more (non-word) character; the lazy \<open>\w*?\<close> stops at the first digit of the
      run, and the group is the run from that digit on.\<close>
  "match_id s =
     (let w = takeWhile is_word s in
      if length w < length s \<and> list_ex is_digit w
      then Some (dropWhile (\<lambda>c. \<not> is_digit c) w) else None)"

definition is_sep :: "char \<Rightarrow> bool" where
  \<comment> \<open>the class \<open>[-\s]\<close>\<close>
  "is_sep c = (c = CHR ''-'' \<or> is_space c)"

function collapse :: "string \<Rightarrow> string" where
  \<comment> \<open>\<open>re.sub(r'[-\s]+', '-', s)\<close>: every maximal run of separators becomes one hyphen\<close>
  "collapse [] = []"
| "collapse (c # cs) =
     (if is_sep c then CHR ''-'' # collapse (dropWhile is_sep cs) else c # collapse cs)"
  by pat_completeness auto
termination
  by (relation "measure length") (auto simp: le_imp_less_Suc length_dropWhile_le)

definition slugify :: "string \<Rightarrow> string" where
  "slugify s =
     lower (strip_hyphen (collapse (filter (\<lambda>c. is_word c \<or> is_space c \<or> c = CHR ''-'') s)))"

definition base_name_of :: "string \<Rightarrow> string" where
  "base_name_of heading_text =
     (case match_id heading_text of
        Some g \<Rightarrow> lower g
      | None \<Rightarrow> (let b = slugify heading_text in if b = [] then ''unnamed'' else b))"

definition suffixed :: "string \<Rightarrow> nat \<Rightarrow> string" where
  \<comment> \<open>\<open>f"{base_name}-{counter}"\<close>\<close>
  "suffixed base_name counter = base_name @ ''-'' @ str_nat counter"

lemma digit_char_val: "d < 10 \<Longrightarrow> (of_char (digit_char d) :: nat) - 48 = d"
proof -
  assume "d < 10"
  then have "d \<in> {0, 1, 2, 3, 4, 5, 6, 7, 8, 9}" by auto
  then show ?thesis by (auto simp: digit_char_def)
qed

lemma nat_str_append: "nat_str (xs @ ys) a = nat_str ys (nat_str xs a)"
  by (induction xs arbitrary: a) auto

lemma nat_str_str_nat: "nat_str (str_nat n) 0 = n"
proof (induction n rule: str_nat.induct)
  case (1 n)
  show ?case
  proof (cases "n < 10")
    case True
    then show ?thesis by (simp add: str_nat.simps [of n] digit_char_val)
  next
    case False
    then have "nat_str (str_nat (n div 10)) 0 = n div 10" using "1.IH" by simp
    then show ?thesis using False
      by (simp add: str_nat.simps [of n] nat_str_append digit_char_val)
  qed
qed

lemma inj_str_nat: "inj str_nat"
  by (rule inj_on_inverseI [where g = "\<lambda>s. nat_str s 0"]) (simp add: nat_str_str_nat)

lemma inj_suffixed: "inj (suffixed b)"
  using inj_str_nat by (auto simp: inj_def suffixed_def)

lemma finite_suffixes_used: "finite {k. suffixed b k |\<in>| used}"
proof -
  have "{k. suffixed b k |\<in>| used} = suffixed b -` fset used" by auto
  then show ?thesis using finite_vimageI [OF finite_fset inj_suffixed] by simp
qed

function find_free :: "string \<Rightarrow> string fset \<Rightarrow> nat \<Rightarrow> nat" where
  \<comment> \<open>the \<open>while\<close> loop: the first counter from the given one on whose name is free\<close>
  "find_free base_name used_names counter =
     (if suffixed base_name counter |\<in>| used_names
      then find_free base_name used_names (counter + 1) else counter)"
  by pat_completeness auto
termination
proof (relation "measure (\<lambda>(b, used, c). card {k. c \<le> k \<and> suffixed b k |\<in>| used})", goal_cases)
  case 1
  show ?case by simp
next
  case (2 b used c)
  have fin: "finite {k. c \<le> k \<and> suffixed b k |\<in>| used}"
    by (rule finite_subset [OF _ finite_suffixes_used [of b used]]) auto
  have "c \<in> {k. c \<le> k \<and> suffixed b k |\<in>| used}"
    and "c \<notin> {k. c + 1 \<le> k \<and> suffixed b k |\<in>| used}"
    using 2 by auto
  moreover have "{k. c + 1 \<le> k \<and> suffixed b k |\<in>| used} \<subseteq> {k. c \<le> k \<and> suffixed b k |\<in>| used}"
    by auto
  ultimately have "{k. c + 1 \<le> k \<and> suffixed b k |\<in>| used} \<subset> {k. c \<le> k \<and> suffixed b k |\<in>| used}"
    by blast
  then show ?case using psubset_card_mono [OF fin] by simp
qed

declare find_free.simps [simp del]

definition heading_to_name :: "string \<Rightarrow> string fset \<Rightarrow> string \<times> string fset" where
  \<comment> \<open>returns the name and the updated set \<open>used_names\<close>\<close>
  "heading_to_name heading_text used_names =
     (let base_name = base_name_of heading_text in
      if base_name |\<notin>| used_names then (base_name, finsert base_name used_names)
      else (let final_name = suffixed base_name (find_free base_name used_names 1)
            in (final_name, finsert final_name used_names)))"

fun allocate_all :: "string list \<Rightarrow> string fset \<Rightarrow> string list" where
  \<comment> \<open>the names returned by successive calls that share one set\<close>
  "allocate_all [] used_names = []"
| "allocate_all (h # hs) used_names =
     (case heading_to_name h used_names of (n, used') \<Rightarrow> n # allocate_all hs used')"

section \<open>Heading Extractor: \<open>parse_markdown\<close>\<close>

text \<open>
  The Markdown parser (mistune, rendering to an AST) is a library outside the repository:
  its result is an argument of the model. Of a block node only its type, its level and
  its children are read; of an inline node only whether it has a \<open>raw\<close> field (text,
  codespan, inline_html and any other node with one), else whether it has children.
\<close>

datatype inline = Raw string | Nested "inline list" | Leaf

datatype block = Heading nat "inline list" | Other

fun inline_text :: "inline \<Rightarrow> string" where
  "inline_text (Raw r) = r"
| "inline_text (Nested cs) = concat (map inline_text cs)"
| "inline_text Leaf = []"

definition extract_heading_text :: "inline list \<Rightarrow> string" where
  "extract_heading_text children = concat (map inline_text children)"

type_synonym position = "nat \<times> nat \<times> string"
  \<comment> \<open>an entry of \<open>heading_positions\<close>: line number, level, line\<close>

type_synonym heading = "nat \<times> string \<times> nat"
  \<comment> \<open>level, heading text, start line\<close>

type_synonym md_section = "nat \<times> string \<times> nat \<times> nat"
  \<comment> \<open>level, heading text, start line, end line\<close>

definition raw_level :: "string \<Rightarrow> nat option" where
  \<comment> \<open>\<open>len(match.group(1))\<close> for \<open>re.match(r'^(#{1,2})\s*(.+)$', line)\<close> on a line without
      newline: \<open>\s*\<close> may match nothing, so the pattern asks for one or two \<open>#\<close> and at
      least one more character; the greedy \<open>#{1,2}\<close> gives up its second \<open>#\<close> only when
      nothing follows it.\<close>
  "raw_level line =
     (if prefix ''##'' line \<and> 3 \<le> length line then Some 2
      else if prefix ''#'' line \<and> 2 \<le> length line then Some 1
      else None)"

definition heading_positions :: "string list \<Rightarrow> position list" where
  \<comment> \<open>the dictionary of the first pass, in insertion order\<close>
  "heading_positions lines =
     List.map_filter
       (\<lambda>(i, line). case raw_level line of Some level \<Rightarrow> Some (i, level, line) | None \<Rightarrow> None)
       (enumerate 0 lines)"

definition line_matches :: "nat \<Rightarrow> string \<Rightarrow> nat \<times> string \<Rightarrow> bool" where
  "line_matches level heading_text p =
     (case p of (line_level, line_content) \<Rightarrow>
        line_level = level \<and>
        (let line_text = strip (drop level line_content) in
           sublist heading_text line_text \<or>
           prefix (if 20 \<le> length heading_text then take 20 heading_text else heading_text)
             line_text))"

definition best_match :: "nat \<Rightarrow> string \<Rightarrow> position list \<Rightarrow> nat option" where
  \<comment> \<open>the inner \<open>for\<close> loop over \<open>heading_positions.items()\<close>\<close>
  "best_match level heading_text positions =
     fold (\<lambda>(line_num, p) best.
             if line_matches level heading_text p \<and>
                (case best of None \<Rightarrow> True | Some b \<Rightarrow> line_num < b)
             then Some line_num else best)
       positions None"

definition del_position :: "nat \<Rightarrow> position list \<Rightarrow> position list" where
  \<comment> \<open>\<open>del heading_positions[best_match]\<close>\<close>
  "del_position k positions = filter (\<lambda>(i, p). i \<noteq> k) positions"

definition match_node :: "block \<Rightarrow> position list \<times> heading list \<Rightarrow> position list \<times> heading list"
  where
  \<comment> \<open>one round of the second pass\<close>
  "match_node node st =
     (case st of (positions, headings) \<Rightarrow>
        (case node of
           Other \<Rightarrow> st
         | Heading level children \<Rightarrow>
             if level \<le> 2 then
               (let heading_text = extract_heading_text children in
                  case best_match level heading_text positions of
                    None \<Rightarrow> st
                  | Some b \<Rightarrow> (del_position b positions, headings @ [(level, heading_text, b)]))
             else st))"

definition match_headings :: "block list \<Rightarrow> position list \<Rightarrow> heading list" where
  "match_headings ast positions = snd (fold match_node ast (positions, []))"

fun find_end :: "nat \<Rightarrow> nat \<Rightarrow> heading list \<Rightarrow> nat" where
  \<comment> \<open>the loop over \<open>headings[idx + 1:]\<close>, with \<open>len(lines)\<close> as the default\<close>
  "find_end level n [] = n"
| "find_end level n ((next_level, t, next_start) # rest) =
     (if next_level \<le> level then next_start else find_end level n rest)"

fun build_sections :: "nat \<Rightarrow> heading list \<Rightarrow> md_section list" where
  "build_sections n [] = []"
| "build_sections n ((level, heading_text, start_line) # rest) =
     (level, heading_text, start_line, find_end level n rest) # build_sections n rest"

definition parse_markdown :: "block list \<Rightarrow> string \<Rightarrow> md_section list" where
  \<comment> \<open>\<open>ast\<close> is what the parser returned for \<open>content\<close>\<close>
  "parse_markdown ast content =
     (let lines = split_nl content in
        build_sections (length lines) (match_headings ast (heading_positions lines)))"

section \<open>Section Splitter: \<open>create_file_structure\<close>\<close>

text \<open>
  The file system is a map from paths to file contents. Directories are not files:
  removing a directory tree removes every file below it.
\<close>

type_synonym filesystem = "string \<rightharpoonup> string"

datatype error = FileNotFoundError string | UnicodeDecodeError string | OSError string
  \<comment> \<open>the exceptions, each with the path it is raised for\<close>

record nav_item =
  item_text :: string
  item_link :: string

record nav_entry =
  nav_text :: string
  nav_link :: "string option"
  nav_items :: "nav_item list"

record cfs_state =
  used_names :: "string fset"
  current_l1_name :: "string option"
  sidebar_structure :: "nav_entry list"
  current_l1_items :: "nav_item list"
  current_l1_link :: "string option"
  fs :: filesystem

definition TOO_LONG_THRESHOLD :: int where
  "TOO_LONG_THRESHOLD = 500"

definition original_path :: "string \<Rightarrow> string" where
  "original_path name = ''original/'' @ name @ ''.md''"

definition base_dir :: "string \<Rightarrow> string" where
  "base_dir name = ''docs/'' @ name"

definition file_path :: "string \<Rightarrow> string \<Rightarrow> string" where
  \<comment> \<open>\<open>base_dir / f'{file_name}.md'\<close>\<close>
  "file_path name file_name = base_dir name @ ''/'' @ file_name @ ''.md''"

definition link_to :: "string \<Rightarrow> string \<Rightarrow> string" where
  \<comment> \<open>\<open>f'/{name}/{file_name}'\<close>\<close>
  "link_to name file_name = ''/'' @ name @ ''/'' @ file_name"

definition rmtree :: "string \<Rightarrow> filesystem \<Rightarrow> filesystem" where
  "rmtree dir files = (\<lambda>p. if prefix (dir @ ''/'') p then None else files p)"

definition save_l1 :: "cfs_state \<Rightarrow> nav_entry list" where
  \<comment> \<open>\<open>if current_l1_name: sidebar_structure.append(...)\<close>: \<open>None\<close> and the empty
      string are both false\<close>
  "save_l1 st =
     (case current_l1_name st of
        None \<Rightarrow> sidebar_structure st
      | Some n \<Rightarrow>
          if n \<noteq> [] then
            sidebar_structure st @
              [\<lparr>nav_text = n, nav_link = current_l1_link st, nav_items = current_l1_items st\<rparr>]
          else sidebar_structure st)"

fun to_h1 :: "string list \<Rightarrow> string list" where
  \<comment> \<open>the loop that removes one \<open>#\<close> from the first line starting with \<open>'## '\<close>\<close>
  "to_h1 [] = []"
| "to_h1 (line # rest) = (if prefix ''## '' line then drop 1 line # rest else line # to_h1 rest)"

definition cfs_step :: "string \<Rightarrow> string list \<Rightarrow> cfs_state \<Rightarrow> md_section \<Rightarrow> cfs_state" where
  \<comment> \<open>the body of the loop over \<open>sections\<close>\<close>
  "cfs_step name lines st sec =
     (case sec of (level, heading_text, start_line, end_line) \<Rightarrow>
        (let content = join_nl (slice lines start_line end_line);
             content_line_count = int end_line - int start_line
         in
           if level = 1 then
             (let st1 = st\<lparr>sidebar_structure := save_l1 st,
                            current_l1_name := Some heading_text,
                            current_l1_items := []\<rparr>
              in
                if content_line_count > TOO_LONG_THRESHOLD then st1\<lparr>current_l1_link := None\<rparr>
                else
                  (case heading_to_name heading_text (used_names st1) of
                     (file_name, used') \<Rightarrow>
                       st1\<lparr>used_names := used',
                            current_l1_link := Some (link_to name file_name),
                            fs := (fs st1)(file_path name file_name \<mapsto> content)\<rparr>))
           else if level = 2 then
             (let st1 = (if current_l1_name st = None
                         then st\<lparr>current_l1_name := Some ''Content'',
                                  current_l1_items := [],
                                  current_l1_link := None\<rparr>
                         else st)
              in
                if current_l1_link st1 = None then
                  (case heading_to_name heading_text (used_names st1) of
                     (file_name, used') \<Rightarrow>
                       st1\<lparr>used_names := used',
                            fs := (fs st1)(file_path name file_name \<mapsto>
                                     join_nl (to_h1 (split_nl content))),
                            current_l1_items := current_l1_items st1 @
                              [\<lparr>item_text = heading_text, item_link = link_to name file_name\<rparr>]\<rparr>)
                else st1)
           else st))"

definition cfs_init :: "filesystem \<Rightarrow> cfs_state" where
  "cfs_init files =
     \<lparr>used_names = {||}, current_l1_name = None, sidebar_structure = [],
      current_l1_items = [], current_l1_link = None, fs = files\<rparr>"

definition create_file_structure ::
  "string \<Rightarrow> md_section list \<Rightarrow> filesystem \<Rightarrow> error + (nav_entry list \<times> filesystem)" where
  \<comment> \<open>returns the sidebar structure and the file system it leaves\<close>
  "create_file_structure name sections files =
     (case files (original_path name) of
        None \<Rightarrow> Inl (FileNotFoundError (original_path name))
      | Some original \<Rightarrow>
          (let lines = split_nl original;
               st = foldl (cfs_step name lines) (cfs_init (rmtree (base_dir name) files)) sections
           in Inr (save_l1 st, fs st)))"

section \<open>Calls into the file system that raise\<close>

text \<open>
  \<open>split.py\<close> has no \<open>try\<close>: an exception raised by a call into the file system ends
  whatever is running. Whether a call raises is decided outside the program (the bytes of
  a file are not UTF-8, the file system refuses a file name, a directory is missing or
  cannot be removed), so it is a parameter: for every kind of call and every path, the
  error the call raises there, if any. \<open>os.path.exists\<close> does not raise.
  \<open>create_file_structure\<close> above is the Section Splitter when no call raises;
  \<open>create_file_structure_io\<close> below is the same code with every call that can raise.
\<close>

record io_env =
  read_error :: "string \<Rightarrow> error option"
    \<comment> \<open>\<open>open(path, 'r', encoding='utf-8')\<close> and \<open>f.read()\<close> on a file that exists\<close>
  write_error :: "string \<Rightarrow> error option"
    \<comment> \<open>\<open>open(path, 'w', encoding='utf-8')\<close>\<close>
  rmtree_error :: "string \<Rightarrow> error option"
    \<comment> \<open>\<open>if dir.exists(): shutil.rmtree(dir)\<close>\<close>
  mkdir_error :: "string \<Rightarrow> error option"
    \<comment> \<open>\<open>dir.mkdir(parents=True, exist_ok=True)\<close>\<close>

definition read_text :: "io_env \<Rightarrow> filesystem \<Rightarrow> string \<Rightarrow> error + string" where
  \<comment> \<open>\<open>with open(path, 'r', encoding='utf-8') as f: f.read()\<close>\<close>
  "read_text env files path =
     (case files path of
        None \<Rightarrow> Inl (FileNotFoundError path)
      | Some content \<Rightarrow>
          (case read_error env path of Some e \<Rightarrow> Inl e | None \<Rightarrow> Inr content))"

definition write_text :: "io_env \<Rightarrow> string \<Rightarrow> string \<Rightarrow> filesystem \<Rightarrow> error + filesystem" where
  \<comment> \<open>\<open>with open(path, 'w', encoding='utf-8') as f: f.write(content)\<close>\<close>
  "write_text env path content files =
     (case write_error env path of
        Some e \<Rightarrow> Inl e
      | None \<Rightarrow> Inr (files(path \<mapsto> content)))"

definition remove_tree :: "io_env \<Rightarrow> string \<Rightarrow> filesystem \<Rightarrow> error + filesystem" where
  \<comment> \<open>\<open>if dir.exists(): shutil.rmtree(dir)\<close>\<close>
  "remove_tree env dir files =
     (case rmtree_error env dir of
        Some e \<Rightarrow> Inl e
      | None \<Rightarrow> Inr (rmtree dir files))"

definition make_dir :: "io_env \<Rightarrow> string \<Rightarrow> filesystem \<Rightarrow> error + filesystem" where
  \<comment> \<open>\<open>dir.mkdir(parents=True, exist_ok=True)\<close>: directories are not files\<close>
  "make_dir env dir files =
     (case mkdir_error env dir of
        Some e \<Rightarrow> Inl e
      | None \<Rightarrow> Inr files)"

definition cfs_step_io ::
  "io_env \<Rightarrow> string \<Rightarrow> string list \<Rightarrow> cfs_state \<Rightarrow> md_section \<Rightarrow> error + cfs_state" where
  \<comment> \<open>the body of the loop over \<open>sections\<close>, its two \<open>open(file_path, 'w')\<close> included\<close>
  "cfs_step_io env name lines st sec =
     (case sec of (level, heading_text, start_line, end_line) \<Rightarrow>
        (let content = join_nl (slice lines start_line end_line);
             content_line_count = int end_line - int start_line
         in
           if level = 1 then
             (let st1 = st\<lparr>sidebar_structure := save_l1 st,
                            current_l1_name := Some heading_text,
                            current_l1_items := []\<rparr>
              in
                if content_line_count > TOO_LONG_THRESHOLD then Inr (st1\<lparr>current_l1_link := None\<rparr>)
                else
                  (case heading_to_name heading_text (used_names st1) of
                     (file_name, used') \<Rightarrow>
                       (case write_text env (file_path name file_name) content (fs st1) of
                          Inl e \<Rightarrow> Inl e
                        | Inr files' \<Rightarrow>
                            Inr (st1\<lparr>used_names := used',
                                     current_l1_link := Some (link_to name file_name),
                                     fs := files'\<rparr>))))
           else if level = 2 then
             (let st1 = (if current_l1_name st = None
                         then st\<lparr>current_l1_name := Some ''Content'',
                                  current_l1_items := [],
                                  current_l1_link := None\<rparr>
                         else st)
              in
                if current_l1_link st1 = None then
                  (case heading_to_name heading_text (used_names st1) of
                     (file_name, used') \<Rightarrow>
                       (case write_text env (file_path name file_name)
                               (join_nl (to_h1 (split_nl content))) (fs st1) of
                          Inl e \<Rightarrow> Inl e
                        | Inr files' \<Rightarrow>
                            Inr (st1\<lparr>used_names := used',
                                     fs := files',
                                     current_l1_items := current_l1_items st1 @
                                       [\<lparr>item_text = heading_text,
                                         item_link = link_to name file_name\<rparr>]\<rparr>)))
                else Inr st1)
           else Inr st))"

fun cfs_loop_io ::
  "io_env \<Rightarrow> string \<Rightarrow> string list \<Rightarrow> cfs_state \<Rightarrow> md_section list \<Rightarrow> error + cfs_state" where
  \<comment> \<open>the loop over \<open>sections\<close>: the first call that raises ends it\<close>
  "cfs_loop_io env name lines st [] = Inr st"
| "cfs_loop_io env name lines st (sec # sections) =
     (case cfs_step_io env name lines st sec of
        Inl e \<Rightarrow> Inl e
      | Inr st' \<Rightarrow> cfs_loop_io env name lines st' sections)"

definition create_file_structure_io ::
  "io_env \<Rightarrow> string \<Rightarrow> md_section list \<Rightarrow> filesystem \<Rightarrow>
     error + (nav_entry list \<times> filesystem)" where
  "create_file_structure_io env name sections files =
     (if files (original_path name) = None then Inl (FileNotFoundError (original_path name))
      else
        (case read_text env files (original_path name) of
           Inl e \<Rightarrow> Inl e
         | Inr original \<Rightarrow>
             (let lines = split_nl original in
                case remove_tree env (base_dir name) files of
                  Inl e \<Rightarrow> Inl e
                | Inr files1 \<Rightarrow>
                    (case make_dir env (base_dir name) files1 of
                       Inl e \<Rightarrow> Inl e
                     | Inr files2 \<Rightarrow>
                         (case cfs_loop_io env name lines (cfs_init files2) sections of
                            Inl e \<Rightarrow> Inl e
                          | Inr st \<Rightarrow> Inr (save_l1 st, fs st))))))"

section \<open>Navigation Builder: \<open>generate_sidebar_config\<close>\<close>

definition q :: string where
  "q = [CHR 0x27]"

definition nl :: string where
  "nl = [CHR 0x0A]"

fun join_sep :: "string \<Rightarrow> string list \<Rightarrow> string" where
  \<comment> \<open>\<open>sep.join(parts)\<close>\<close>
  "join_sep sep [] = []"
| "join_sep sep [x] = x"
| "join_sep sep (x # y # ys) = x @ sep @ join_sep sep (y # ys)"

definition escape_quotes :: "string \<Rightarrow> string" where
  \<comment> \<open>\<open>s.replace("'", "\\'")\<close>\<close>
  "escape_quotes s = concat (map (\<lambda>c. if c = CHR 0x27 then [CHR 0x5C, CHR 0x27] else [c]) s)"

definition render_item :: "nav_item \<Rightarrow> string" where
  "render_item sub_item =
     ''                    { text: '' @ q @ escape_quotes (item_text sub_item) @ q @
     '', link: '' @ q @ item_link sub_item @ q @ '' },'' @ nl"

definition render_section :: "nav_entry \<Rightarrow> string" where
  "render_section sec =
     ''            {'' @ nl @
     ''                text: '' @ q @ escape_quotes (nav_text sec) @ q @ '','' @ nl @
     (case nav_link sec of
        None \<Rightarrow> []
      | Some l \<Rightarrow> if l \<noteq> [] then ''                link: '' @ q @ l @ q @ '','' @ nl else []) @
     (if nav_items sec \<noteq> [] then
        ''                collapsed: true,'' @ nl @
        ''                items: ['' @ nl @
        concat (map render_item (nav_items sec)) @
        ''                ]'' @ nl
      else []) @
     ''            },'' @ nl"

definition render_document :: "string \<times> nav_entry list \<Rightarrow> string" where
  "render_document d =
     (case d of (name, structure) \<Rightarrow>
        q @ ''/'' @ name @ q @ '': {'' @ nl @
        ''        items: ['' @ nl @
        concat (map render_section structure) @
        ''        ]'' @ nl @
        ''    }'')"

definition generate_sidebar_config :: "(string \<times> nav_entry list) list \<Rightarrow> string" where
  "generate_sidebar_config structures =
     join_sep ('','' @ nl @ ''        '') (map render_document structures)"

section \<open>Orchestrator: \<open>update_config_file\<close> and \<open>split\<close>\<close>

function str_replace :: "string \<Rightarrow> string \<Rightarrow> string \<Rightarrow> string" where
  \<comment> \<open>\<open>s.replace(old, new)\<close> for a non-empty \<open>old\<close>\<close>
  "str_replace old new [] = []"
| "str_replace old new (c # cs) =
     (if prefix old (c # cs) then new @ str_replace old new (drop (length old - 1) cs)
      else c # str_replace old new cs)"
  by pat_completeness auto
termination
  by (relation "measure (\<lambda>(old, new, s). length s)") auto

definition update_config_file :: "io_env \<Rightarrow> string \<Rightarrow> filesystem \<Rightarrow> error + filesystem" where
  \<comment> \<open>the template is read, then \<open>docs/.vitepress/config.mjs\<close> is opened for writing: that
      raises when the directory \<open>docs/.vitepress\<close> does not exist, which nothing here
      creates\<close>
  "update_config_file env sidebar_config files =
     (case read_text env files ''config.templ.mjs'' of
        Inl e \<Rightarrow> Inl e
      | Inr template \<Rightarrow>
          write_text env ''docs/.vitepress/config.mjs''
            (str_replace ''// template: sidebar'' sidebar_config template) files)"

definition name_char :: "char \<Rightarrow> bool" where
  \<comment> \<open>the class \<open>[a-zA-Z0-9_-]\<close>\<close>
  "name_char c = (let n = (of_char c :: nat) in
     (97 \<le> n \<and> n \<le> 122) \<or> (65 \<le> n \<and> n \<le> 90) \<or> (48 \<le> n \<and> n \<le> 57) \<or> n = 95 \<or> n = 45)"

definition valid_name :: "string \<Rightarrow> bool" where
  \<comment> \<open>\<open>re.match(r'^[a-zA-Z0-9_-]+$', name)\<close>; \<open>$\<close> also matches before a newline that
      ends the string\<close>
  "valid_name name =
     (takeWhile name_char name \<noteq> [] \<and>
      (dropWhile name_char name = [] \<or> dropWhile name_char name = [CHR 0x0A]))"

definition upper_char :: "char \<Rightarrow> char" where
  \<comment> \<open>\<open>str.upper\<close> on the letters a to z; it is only applied to a valid name\<close>
  "upper_char c = (let n = (of_char c :: nat) in
     if 97 \<le> n \<and> n \<le> 122 then char_of (n - 32) else c)"

definition tiku :: string where
  \<comment> \<open>the two characters after the title (U+9898 U+5E93), as the UTF-8 bytes written\<close>
  "tiku = [CHR 0xE9, CHR 0xA2, CHR 0x98, CHR 0xE5, CHR 0xBA, CHR 0x93]"

definition welcome_to :: string where
  \<comment> \<open>U+6B22 U+8FCE U+6765 U+5230, in UTF-8\<close>
  "welcome_to = [CHR 0xE6, CHR 0xAC, CHR 0xA2, CHR 0xE8, CHR 0xBF, CHR 0x8E,
                 CHR 0xE6, CHR 0x9D, CHR 0xA5, CHR 0xE5, CHR 0x88, CHR 0xB0]"

definition choose_left :: string where
  \<comment> \<open>the rest of the sentence, from U+FF0C to U+3002, in UTF-8\<close>
  "choose_left = [CHR 0xEF, CHR 0xBC, CHR 0x8C, CHR 0xE7, CHR 0x82, CHR 0xB9,
                  CHR 0xE5, CHR 0x87, CHR 0xBB, CHR 0xE5, CHR 0xB7, CHR 0xA6,
                  CHR 0xE8, CHR 0xBE, CHR 0xB9, CHR 0xE7, CHR 0x9B, CHR 0xAE,
                  CHR 0xE5, CHR 0xBD, CHR 0x95, CHR 0xE9, CHR 0x80, CHR 0x89,
                  CHR 0xE6, CHR 0x8B, CHR 0xA9, CHR 0xE9, CHR 0xA2, CHR 0x98,
                  CHR 0xE7, CHR 0x9B, CHR 0xAE, CHR 0xE3, CHR 0x80, CHR 0x82]"

definition guide_content :: "string \<Rightarrow> string" where
  "guide_content name =
     (let title = (if name = ''oj'' then ''OpenJudge'' @ tiku
                   else if name = ''cf'' then ''Codeforces'' @ tiku
                   else map upper_char name @ tiku)
      in ''# '' @ title @ nl @ nl @ welcome_to @ title @ choose_left @ nl)"

datatype diagnostic = InvalidName string | MissingSource string

record split_state =
  all_structures :: "(string \<times> nav_entry list) list"
  files :: filesystem
  diagnostics :: "diagnostic list"

definition split_step ::
  "io_env \<Rightarrow> (string \<Rightarrow> block list) \<Rightarrow> split_state \<Rightarrow> string \<Rightarrow> error + split_state" where
  \<comment> \<open>the body of the loop over \<open>names\<close>; \<open>md\<close> is the Markdown parser; of what is
      printed, the two messages of a skipped name are kept\<close>
  "split_step env md st name =
     (if \<not> valid_name name then Inr (st\<lparr>diagnostics := diagnostics st @ [InvalidName name]\<rparr>)
      else if files st (original_path name) = None
      then Inr (st\<lparr>diagnostics := diagnostics st @ [MissingSource name]\<rparr>)
      else
        (case read_text env (files st) (original_path name) of
           Inl e \<Rightarrow> Inl e
         | Inr content \<Rightarrow>
             (let sections = parse_markdown (md content) content in
                case remove_tree env (base_dir name) (files st) of
                  Inl e \<Rightarrow> Inl e
                | Inr files1 \<Rightarrow>
                    (case create_file_structure_io env name sections files1 of
                       Inl e \<Rightarrow> Inl e
                     | Inr (structure, files2) \<Rightarrow>
                         (case write_text env (file_path name ''index'') (guide_content name)
                                 files2 of
                            Inl e \<Rightarrow> Inl e
                          | Inr files3 \<Rightarrow>
                              Inr (st\<lparr>all_structures :=
                                        AList.update name structure (all_structures st),
                                      files := files3\<rparr>))))))"

fun split_loop ::
  "io_env \<Rightarrow> (string \<Rightarrow> block list) \<Rightarrow> split_state \<Rightarrow> string list \<Rightarrow> error + split_state"
  where
  \<comment> \<open>the loop over \<open>names\<close>: an exception in one round is caught nowhere and ends it\<close>
  "split_loop env md st [] = Inr st"
| "split_loop env md st (name # names) =
     (case split_step env md st name of
        Inl e \<Rightarrow> Inl e
      | Inr st' \<Rightarrow> split_loop env md st' names)"

definition split ::
  "io_env \<Rightarrow> (string \<Rightarrow> block list) \<Rightarrow> filesystem \<Rightarrow> string list \<Rightarrow>
     error + (filesystem \<times> string option \<times> diagnostic list)" where
  \<comment> \<open>returns the file system left, the fragment handed to \<open>update_config_file\<close> (if any)
      and the messages of the skipped names\<close>
  "split env md files0 names =
     (case split_loop env md \<lparr>all_structures = [], files = files0, diagnostics = []\<rparr> names of
        Inl e \<Rightarrow> Inl e
      | Inr st \<Rightarrow>
          if all_structures st \<noteq> [] then
            (let sidebar_config = generate_sidebar_config (all_structures st) in
               case update_config_file env sidebar_config (files st) of
                 Inl e \<Rightarrow> Inl e
               | Inr files' \<Rightarrow> Inr (files', Some sidebar_config, diagnostics st))
          else Inr (files st, None, diagnostics st))"

section \<open>Notions used in the statements\<close>

definition candidates :: "nat \<Rightarrow> string \<Rightarrow> position list \<Rightarrow> nat list" where
  \<comment> \<open>the line numbers of the positions that match, in the order of the dictionary\<close>
  "candidates level heading_text positions =
     map fst (filter (\<lambda>(line_num, p). line_matches level heading_text p) positions)"

definition starts :: "heading list \<Rightarrow> nat list" where
  "starts hs = map (\<lambda>(l, t, s). s) hs"

definition match_inv :: "position list \<Rightarrow> position list \<times> heading list \<Rightarrow> bool" where
  \<comment> \<open>what the second pass keeps true: the positions left are positions of the first pass,
      every start line was one of them, with the level of its heading, and is no longer
      among those left\<close>
  "match_inv ps0 st =
     (case st of (ps, hs) \<Rightarrow>
        set ps \<subseteq> set ps0 \<and> distinct (starts hs) \<and>
        list_all (\<lambda>(l, t, s). list_ex (\<lambda>(i, l', line). i = s \<and> l' = l) ps0 \<and>
                              \<not> list_ex (\<lambda>(i, l', line). i = s) ps) hs)"

fun spans_laminar :: "md_section list \<Rightarrow> bool" where
  \<comment> \<open>the spec's "non-overlapping and contiguous within a parent's boundary": every span is
      a span (\<open>start \<le> end\<close>), and a later section either begins where an earlier one has
      ended or lies inside it\<close>
  "spans_laminar [] = True"
| "spans_laminar ((l, t, s, e) # rest) =
     (s \<le> e \<and> list_all (\<lambda>(l', t', s', e'). e \<le> s' \<or> (s \<le> s' \<and> e' \<le> e)) rest \<and>
      spans_laminar rest)"

definition span_file :: "string list \<Rightarrow> md_section \<Rightarrow> string \<Rightarrow> bool" where
  \<comment> \<open>the content is the span of the section, as it is or with the first line that starts
      with \<open>'## '\<close> one character shorter\<close>
  "span_file lines sec c =
     (case sec of (l, t, s, e) \<Rightarrow>
        c = join_nl (slice lines s e) \<or> c = join_nl (to_h1 (slice lines s e)))"

definition restore_h2 :: "string \<Rightarrow> string" where
  \<comment> \<open>the spec's "restoring the rewritten leading heading marker": a content that begins
      with \<open>'# '\<close> gets its second \<open>#\<close> back\<close>
  "restore_h2 c = (if prefix ''# '' c then CHR ''#'' # c else c)"

fun chained :: "md_section list \<Rightarrow> bool" where
  \<comment> \<open>each section ends where the next one starts\<close>
  "chained [] = True"
| "chained [c] = True"
| "chained ((l, t, s, e) # (l', t', s', e') # rest) = (e = s' \<and> chained ((l', t', s', e') # rest))"

definition l2_names :: "md_section list \<Rightarrow> string fset \<Rightarrow> string list" where
  \<comment> \<open>the names the allocator gives to the headings of the sections, one after the other\<close>
  "l2_names cs used = allocate_all (map (\<lambda>(l, t, s, e). t) cs) used"

definition l2_content :: "string list \<Rightarrow> md_section \<Rightarrow> string" where
  \<comment> \<open>what is written for a level-2 section that gets its own file\<close>
  "l2_content lines c =
     (case c of (l, t, s, e) \<Rightarrow> join_nl (to_h1 (split_nl (join_nl (slice lines s e)))))"

definition l2_item :: "string \<Rightarrow> md_section \<Rightarrow> string \<Rightarrow> nav_item" where
  "l2_item name c n = \<lparr>item_text = fst (snd c), item_link = link_to name n\<rparr>"

definition sec_start :: "md_section \<Rightarrow> nat" where
  "sec_start c = fst (snd (snd c))"

definition sec_end :: "md_section \<Rightarrow> nat" where
  "sec_end c = snd (snd (snd c))"

definition span_lines :: "string list \<Rightarrow> md_section \<Rightarrow> string list" where
  \<comment> \<open>\<open>lines[start_line:end_line]\<close>\<close>
  "span_lines lines c = slice lines (sec_start c) (sec_end c)"

definition heading_first :: "string list \<Rightarrow> md_section \<Rightarrow> bool" where
  \<comment> \<open>the span begins with a line that starts with \<open>'## '\<close>\<close>
  "heading_first lines c =
     (case span_lines lines c of [] \<Rightarrow> False | x # xs \<Rightarrow> prefix ''## '' x)"

definition long_lines :: "string list" where
  \<comment> \<open>a level-1 heading and two level-2 sections, the second with 500 lines of text\<close>
  "long_lines = ''# A'' # ''## B'' # ''b'' # ''## C'' # replicate 500 ''x''"

definition long_doc :: string where
  "long_doc = join_nl long_lines"

definition tab_heading :: string where
  \<comment> \<open>a level-2 heading with a tab after its marker: a heading for the parser, and a line
      that the pattern \<open>^(#{1,2})\s*(.+)$\<close> matches\<close>
  "tab_heading = ''##'' @ [CHR 0x09] @ ''B''"

definition tab_lines :: "string list" where
  \<comment> \<open>a level-1 heading, that level-2 heading, a fenced code block that holds the line
      \<open>## x\<close>, and 500 lines of text\<close>
  "tab_lines = ''# A'' # tab_heading # ''~~~'' # ''## x'' # ''~~~'' # replicate 500 ''x''"

definition tab_doc :: string where
  "tab_doc = join_nl tab_lines"

definition below :: "string \<Rightarrow> string \<Rightarrow> bool" where
  \<comment> \<open>the path lies below the output directory of the document\<close>
  "below name p = prefix (base_dir name @ ''/'') p"

definition processable :: "filesystem \<Rightarrow> string \<Rightarrow> bool" where
  \<comment> \<open>the name passes the validation and its source file exists\<close>
  "processable f name = (valid_name name \<and> f (original_path name) \<noteq> None)"

definition doc_run :: "(string \<Rightarrow> block list) \<Rightarrow> string \<Rightarrow> string \<Rightarrow> cfs_state" where
  \<comment> \<open>the Section Splitter's loop on the sections of a document, from an empty directory\<close>
  "doc_run md name content =
     foldl (cfs_step name (split_nl content)) (cfs_init Map.empty)
       (parse_markdown (md content) content)"

definition doc_files :: "(string \<Rightarrow> block list) \<Rightarrow> string \<Rightarrow> string \<Rightarrow> filesystem" where
  \<comment> \<open>the files of a processed document: the content files, then the guide page\<close>
  "doc_files md name content =
     (fs (doc_run md name content))(file_path name ''index'' \<mapsto> guide_content name)"

definition skip_diags :: "filesystem \<Rightarrow> string list \<Rightarrow> diagnostic list" where
  \<comment> \<open>the messages for the names that are skipped, in the order of the names\<close>
  "skip_diags f names =
     concat (map (\<lambda>n. if \<not> valid_name n then [InvalidName n]
                       else if f (original_path n) = None then [MissingSource n] else []) names)"

definition same_out :: "split_state \<Rightarrow> split_state \<Rightarrow> bool" where
  "same_out s s' = (files s = files s' \<and> all_structures s = all_structures s')"

definition config_path :: string where
  "config_path = ''docs/.vitepress/config.mjs''"

definition cfs_target :: "string \<Rightarrow> cfs_state \<Rightarrow> md_section \<Rightarrow> string option" where
  \<comment> \<open>the file that a round of the Section Splitter's loop opens for writing, if any\<close>
  "cfs_target name st sec =
     (case sec of (level, heading_text, start_line, end_line) \<Rightarrow>
        if level = 1 then
          (if int end_line - int start_line > TOO_LONG_THRESHOLD then None
           else Some (file_path name (fst (heading_to_name heading_text (used_names st)))))
        else if level = 2 then
          (if current_l1_name st = None \<or> current_l1_link st = None
           then Some (file_path name (fst (heading_to_name heading_text (used_names st))))
           else None)
        else None)"

fun cfs_error ::
  "io_env \<Rightarrow> string \<Rightarrow> string list \<Rightarrow> cfs_state \<Rightarrow> md_section list \<Rightarrow> error option" where
  \<comment> \<open>the error of the first file of the loop that cannot be opened for writing\<close>
  "cfs_error env name lines st [] = None"
| "cfs_error env name lines st (sec # sections) =
     (case Option.bind (cfs_target name st sec) (write_error env) of
        Some e \<Rightarrow> Some e
      | None \<Rightarrow> cfs_error env name lines (cfs_step name lines st sec) sections)"

definition doc_error :: "io_env \<Rightarrow> (string \<Rightarrow> block list) \<Rightarrow> string \<Rightarrow> string \<Rightarrow> error option" where
  \<comment> \<open>the first error raised while the document with this source text is processed:
      reading the source, emptying and creating its directory, writing its content files,
      writing its guide page\<close>
  "doc_error env md name content =
     (case read_error env (original_path name) of
        Some e \<Rightarrow> Some e
      | None \<Rightarrow>
          (case rmtree_error env (base_dir name) of
             Some e \<Rightarrow> Some e
           | None \<Rightarrow>
               (case mkdir_error env (base_dir name) of
                  Some e \<Rightarrow> Some e
                | None \<Rightarrow>
                    (case cfs_error env name (split_nl content) (cfs_init Map.empty)
                            (parse_markdown (md content) content) of
                       Some e \<Rightarrow> Some e
                     | None \<Rightarrow> write_error env (file_path name ''index'')))))"

definition no_errors :: io_env where
  \<comment> \<open>no call raises\<close>
  "no_errors =
     \<lparr>read_error = (\<lambda>p. None), write_error = (\<lambda>p. None),
      rmtree_error = (\<lambda>p. None), mkdir_error = (\<lambda>p. None)\<rparr>"

definition undecodable_oj :: io_env where
  \<comment> \<open>the bytes of \<open>original/oj.md\<close> are not UTF-8; no other call raises\<close>
  "undecodable_oj =
     no_errors\<lparr>read_error :=
       (\<lambda>p. if p = ''original/oj.md'' then Some (UnicodeDecodeError p) else None)\<rparr>"

definition heading_A :: "string \<Rightarrow> block list" where
  \<comment> \<open>what the parser returns for the text \<open># A\<close>\<close>
  "heading_A content = [Heading 1 [Raw ''A'']]"

definition two_sources :: filesystem where
  \<comment> \<open>the sources of two documents and the template of the configuration; the text given
      for \<open>original/oj.md\<close> is never looked at when that file cannot be decoded\<close>
  "two_sources =
     [''original/oj.md'' \<mapsto> ''# A'', ''original/cf.md'' \<mapsto> ''# A'',
      ''config.templ.mjs'' \<mapsto> ''// template: sidebar'']"

section \<open>The Name Allocator returns fresh names\<close>

lemma find_free_spec:
  "c0 \<le> find_free b used c0 \<and> suffixed b (find_free b used c0) |\<notin>| used \<and>
   (\<forall>j. c0 \<le> j \<and> j < find_free b used c0 \<longrightarrow> suffixed b j |\<in>| used)"
proof (induction b used c0 rule: find_free.induct)
  case (1 b used c)
  show ?case
  proof (cases "suffixed b c |\<in>| used")
    case True
    then have eq: "find_free b used c = find_free b used (c + 1)"
      by (simp add: find_free.simps [of b used c])
    from "1.IH" [OF True] have a: "c + 1 \<le> find_free b used (c + 1)"
      and f: "suffixed b (find_free b used (c + 1)) |\<notin>| used"
      and m: "\<And>j. c + 1 \<le> j \<Longrightarrow> j < find_free b used (c + 1) \<Longrightarrow> suffixed b j |\<in>| used"
      by auto
    have "suffixed b j |\<in>| used" if "c \<le> j" "j < find_free b used (c + 1)" for j
    proof (cases "j = c")
      case True
      then show ?thesis using \<open>suffixed b c |\<in>| used\<close> by simp
    next
      case False
      then have "c + 1 \<le> j" using that by simp
      then show ?thesis using m that by blast
    qed
    then show ?thesis unfolding eq using a f by auto
  next
    case False
    then show ?thesis by (auto simp: find_free.simps [of b used c])
  qed
qed

lemma heading_to_name_fresh:
  "heading_to_name h used = (n, used') \<Longrightarrow> n |\<notin>| used \<and> used' = finsert n used"
  using find_free_spec [of 1 "base_name_of h" used]
  by (auto simp: heading_to_name_def Let_def split: if_splits)

lemma allocate_all_fresh:
  "distinct (allocate_all hs used) \<and> (\<forall>n \<in> set (allocate_all hs used). n |\<notin>| used)"
proof (induction hs arbitrary: used)
  case Nil
  show ?case by simp
next
  case (Cons h hs)
  obtain n used' where hn: "heading_to_name h used = (n, used')"
    by (cases "heading_to_name h used")
  from heading_to_name_fresh [OF hn] have fr: "n |\<notin>| used" and u: "used' = finsert n used"
    by auto
  from Cons.IH [of used'] show ?case using hn fr u by auto
qed

text \<open>
  C4. Whatever heading texts are run through the allocator against one shared set of used
  names, the names returned are pairwise different and none of them was in the set before;
  a candidate that is free is returned as it is, a candidate that is taken is returned with
  the first suffix \<open>-k\<close>, \<open>k = 1, 2, ...\<close>, that is free; and the three headings
  "1A. Theatre Square", "1A. Other", "???" get the names "1a", "1a-1", "unnamed".
\<close>

theorem name_allocator_never_repeats:
  "distinct (allocate_all hs used) \<and>
   (\<forall>n \<in> set (allocate_all hs used). n |\<notin>| used) \<and>
   (base_name_of h |\<notin>| used \<longrightarrow> fst (heading_to_name h used) = base_name_of h) \<and>
   (base_name_of h |\<in>| used \<longrightarrow>
      (\<exists>k. 1 \<le> k \<and> fst (heading_to_name h used) = suffixed (base_name_of h) k \<and>
           suffixed (base_name_of h) k |\<notin>| used \<and>
           (\<forall>j. 1 \<le> j \<and> j < k \<longrightarrow> suffixed (base_name_of h) j |\<in>| used))) \<and>
   allocate_all [''1A. Theatre Square'', ''1A. Other'', ''???''] {||} =
     [''1a'', ''1a-1'', ''unnamed'']"
proof -
  have ex: "allocate_all [''1A. Theatre Square'', ''1A. Other'', ''???''] {||} =
     [''1a'', ''1a-1'', ''unnamed'']"
    by code_simp
  have taken: "\<exists>k. 1 \<le> k \<and> fst (heading_to_name h used) = suffixed (base_name_of h) k \<and>
           suffixed (base_name_of h) k |\<notin>| used \<and>
           (\<forall>j. 1 \<le> j \<and> j < k \<longrightarrow> suffixed (base_name_of h) j |\<in>| used)"
    if "base_name_of h |\<in>| used"
    using that find_free_spec [of 1 "base_name_of h" used]
    by (intro exI [of _ "find_free (base_name_of h) used 1"])
      (simp add: heading_to_name_def Let_def)
  have free: "fst (heading_to_name h used) = base_name_of h" if "base_name_of h |\<notin>| used"
    using that by (simp add: heading_to_name_def Let_def)
  show ?thesis using allocate_all_fresh [of hs used] ex taken free by blast
qed

theorem name_allocator_never_repeats_witness:
  "base_name_of ''1A. Other'' |\<in>| {|''1a'', ''1a-1''|} \<and>
   allocate_all [''1A. Other'', ''1a'', ''1A?''] {|''1a'', ''1a-1''|} = [''1a-2'', ''1a-3'', ''1a-4''] \<and>
   distinct (allocate_all [''1A. Other'', ''1a'', ''1A?''] {|''1a'', ''1a-1''|}) \<and>
   (\<exists>k. 1 \<le> k \<and>
        fst (heading_to_name ''1A. Other'' {|''1a'', ''1a-1''|}) = suffixed ''1a'' k \<and>
        suffixed ''1a'' k |\<notin>| {|''1a'', ''1a-1''|} \<and>
        (\<forall>j. 1 \<le> j \<and> j < k \<longrightarrow> suffixed ''1a'' j |\<in>| {|''1a'', ''1a-1''|}))"
proof -
  have b: "base_name_of ''1A. Other'' = ''1a''" by code_simp
  have h: "base_name_of ''1A. Other'' |\<in>| {|''1a'', ''1a-1''|}" unfolding b by simp
  have v: "allocate_all [''1A. Other'', ''1a'', ''1A?''] {|''1a'', ''1a-1''|} =
    [''1a-2'', ''1a-3'', ''1a-4'']" by code_simp
  note t = name_allocator_never_repeats
    [of "[''1A. Other'', ''1a'', ''1A?'']" "{|''1a'', ''1a-1''|}" "''1A. Other''"]
  from t have d: "distinct (allocate_all [''1A. Other'', ''1a'', ''1A?''] {|''1a'', ''1a-1''|})"
    by blast
  from t h have "\<exists>k. 1 \<le> k \<and>
        fst (heading_to_name ''1A. Other'' {|''1a'', ''1a-1''|}) = suffixed (base_name_of ''1A. Other'') k \<and>
        suffixed (base_name_of ''1A. Other'') k |\<notin>| {|''1a'', ''1a-1''|} \<and>
        (\<forall>j. 1 \<le> j \<and> j < k \<longrightarrow> suffixed (base_name_of ''1A. Other'') j |\<in>| {|''1a'', ''1a-1''|})"
    by blast
  then show ?thesis unfolding b using h v d b by simp
qed

section \<open>One step of the Section Splitter\<close>

lemma cfs_step_l1_short:
  "int e - int s \<le> 500 \<Longrightarrow> heading_to_name t (used_names st) = (n, u) \<Longrightarrow>
   cfs_step name lines st (1, t, s, e) =
     st\<lparr>sidebar_structure := save_l1 st, current_l1_name := Some t, current_l1_items := [],
        used_names := u, current_l1_link := Some (link_to name n),
        fs := (fs st)(file_path name n \<mapsto> join_nl (slice lines s e))\<rparr>"
  by (simp add: cfs_step_def Let_def TOO_LONG_THRESHOLD_def)

lemma cfs_step_l1_long:
  "int e - int s > 500 \<Longrightarrow>
   cfs_step name lines st (1, t, s, e) =
     st\<lparr>sidebar_structure := save_l1 st, current_l1_name := Some t, current_l1_items := [],
        current_l1_link := None\<rparr>"
  by (simp add: cfs_step_def Let_def TOO_LONG_THRESHOLD_def)

lemma cfs_step_l2_kept:
  "current_l1_name st \<noteq> None \<Longrightarrow> current_l1_link st \<noteq> None \<Longrightarrow>
   cfs_step name lines st (2, t, s, e) = st"
  by (auto simp: cfs_step_def Let_def)

lemma cfs_step_l2_split:
  "current_l1_name st \<noteq> None \<Longrightarrow> current_l1_link st = None \<Longrightarrow>
   heading_to_name t (used_names st) = (n, u) \<Longrightarrow>
   cfs_step name lines st (2, t, s, e) =
     st\<lparr>used_names := u,
        fs := (fs st)(file_path name n \<mapsto> join_nl (to_h1 (split_nl (join_nl (slice lines s e))))),
        current_l1_items := current_l1_items st @ [\<lparr>item_text = t, item_link = link_to name n\<rparr>]\<rparr>"
  by (auto simp: cfs_step_def Let_def)

lemma cfs_step_l2_orphan:
  "current_l1_name st = None \<Longrightarrow> heading_to_name t (used_names st) = (n, u) \<Longrightarrow>
   cfs_step name lines st (2, t, s, e) =
     st\<lparr>current_l1_name := Some ''Content'', current_l1_link := None, used_names := u,
        fs := (fs st)(file_path name n \<mapsto> join_nl (to_h1 (split_nl (join_nl (slice lines s e))))),
        current_l1_items := [\<lparr>item_text = t, item_link = link_to name n\<rparr>]\<rparr>"
  by (simp add: cfs_step_def Let_def)

lemma cfs_step_other:
  "level \<noteq> 1 \<Longrightarrow> level \<noteq> 2 \<Longrightarrow> cfs_step name lines st (level, t, s, e) = st"
  by (simp add: cfs_step_def Let_def)

lemma length_slice: "s \<le> e \<Longrightarrow> e \<le> length xs \<Longrightarrow> length (slice xs s e) = e - s"
  by (simp add: slice_def)

text \<open>
  C3. The decision for a level-1 section is taken from its own line count
  \<open>end_line - start_line\<close>, before any level-2 section below it is looked at. With at most
  500 lines the section is short: its step writes one file with the whole content and sets
  the link, and a level-2 section that follows changes nothing. With more than 500 lines it
  is long: its step writes nothing and leaves no link, and a level-2 section that follows
  gets a file and an item of its own. So 500 lines is short and 501 lines is long.
\<close>

theorem threshold_decides_split:
  "(int e - int s \<le> 500 \<longrightarrow>
      fs (cfs_step name lines st (1, t, s, e)) =
        (fs st)(file_path name (fst (heading_to_name t (used_names st))) \<mapsto>
                  join_nl (slice lines s e)) \<and>
      current_l1_link (cfs_step name lines st (1, t, s, e)) =
        Some (link_to name (fst (heading_to_name t (used_names st)))) \<and>
      cfs_step name lines (cfs_step name lines st (1, t, s, e)) (2, t2, s2, e2) =
        cfs_step name lines st (1, t, s, e)) \<and>
   (500 < int e - int s \<longrightarrow>
      fs (cfs_step name lines st (1, t, s, e)) = fs st \<and>
      current_l1_link (cfs_step name lines st (1, t, s, e)) = None \<and>
      fs (cfs_step name lines (cfs_step name lines st (1, t, s, e)) (2, t2, s2, e2)) =
        (fs st)(file_path name (fst (heading_to_name t2 (used_names st))) \<mapsto>
                  join_nl (to_h1 (split_nl (join_nl (slice lines s2 e2))))) \<and>
      current_l1_items (cfs_step name lines (cfs_step name lines st (1, t, s, e)) (2, t2, s2, e2)) =
        [\<lparr>item_text = t2, item_link = link_to name (fst (heading_to_name t2 (used_names st)))\<rparr>]) \<and>
   (s \<le> e \<and> e \<le> length lines \<longrightarrow> int (length (slice lines s e)) = int e - int s) \<and>
   current_l1_link (cfs_step name lines st (1, t, s, s + 500)) \<noteq> None \<and>
   current_l1_link (cfs_step name lines st (1, t, s, s + 501)) = None"
proof -
  obtain n u where hn: "heading_to_name t (used_names st) = (n, u)"
    by (cases "heading_to_name t (used_names st)")
  obtain n2 u2 where hn2: "heading_to_name t2 (used_names st) = (n2, u2)"
    by (cases "heading_to_name t2 (used_names st)")
  have short: "cfs_step name lines st (1, t, s, e') =
     st\<lparr>sidebar_structure := save_l1 st, current_l1_name := Some t, current_l1_items := [],
        used_names := u, current_l1_link := Some (link_to name n),
        fs := (fs st)(file_path name n \<mapsto> join_nl (slice lines s e'))\<rparr>"
    if "int e' - int s \<le> 500" for e'
    using that hn by (rule cfs_step_l1_short)
  have long: "cfs_step name lines st (1, t, s, e') =
     st\<lparr>sidebar_structure := save_l1 st, current_l1_name := Some t, current_l1_items := [],
        current_l1_link := None\<rparr>"
    if "500 < int e' - int s" for e'
    using that by (rule cfs_step_l1_long)
  have a: ?thesis if "int e - int s \<le> 500"
    using that short [OF that] short [of "s + 500"] long [of "s + 501"] hn
    by (simp add: cfs_step_l2_kept length_slice)
  have b: ?thesis if "500 < int e - int s"
    using that long [OF that] short [of "s + 500"] long [of "s + 501"] hn2
    by (simp add: cfs_step_l2_split length_slice)
  show ?thesis using a b by linarith
qed

theorem threshold_decides_split_witness:
  "int 500 - int 0 \<le> 500 \<and> 500 < int 501 - int 0 \<and>
   current_l1_link (cfs_step ''oj'' (replicate 600 ''x'') (cfs_init Map.empty) (1, ''A'', 0, 500)) =
     Some ''/oj/a'' \<and>
   fs (cfs_step ''oj'' (replicate 600 ''x'') (cfs_init Map.empty) (1, ''A'', 0, 500)) =
     [''docs/oj/a.md'' \<mapsto> join_nl (slice (replicate 600 ''x'') 0 500)] \<and>
   current_l1_link (cfs_step ''oj'' (replicate 600 ''x'') (cfs_init Map.empty) (1, ''A'', 0, 501)) =
     None \<and>
   fs (cfs_step ''oj'' (replicate 600 ''x'') (cfs_init Map.empty) (1, ''A'', 0, 501)) = Map.empty"
proof -
  have n: "fst (heading_to_name ''A'' {||}) = ''a''" by code_simp
  have u: "used_names (cfs_init Map.empty) = {||}" "fs (cfs_init Map.empty) = Map.empty"
    by (simp_all add: cfs_init_def)
  have p: "file_path ''oj'' ''a'' = ''docs/oj/a.md''" "link_to ''oj'' ''a'' = ''/oj/a''"
    by (simp_all add: file_path_def base_dir_def link_to_def)
  have h1: "int 500 - int 0 \<le> 500" and h2: "500 < int 501 - int 0" by simp_all
  note t1 = threshold_decides_split [of 500 0 "''oj''" "replicate 600 ''x''" "cfs_init Map.empty"
      "''A''" "''B''" 1 2]
  note t2 = threshold_decides_split [of 501 0 "''oj''" "replicate 600 ''x''" "cfs_init Map.empty"
      "''A''" "''B''" 1 2]
  from t1 h1 have
    "fs (cfs_step ''oj'' (replicate 600 ''x'') (cfs_init Map.empty) (1, ''A'', 0, 500)) =
      (fs (cfs_init Map.empty))(file_path ''oj'' (fst (heading_to_name ''A'' (used_names (cfs_init Map.empty)))) \<mapsto>
                  join_nl (slice (replicate 600 ''x'') 0 500))"
    and "current_l1_link (cfs_step ''oj'' (replicate 600 ''x'') (cfs_init Map.empty) (1, ''A'', 0, 500)) =
        Some (link_to ''oj'' (fst (heading_to_name ''A'' (used_names (cfs_init Map.empty)))))"
    by blast+
  moreover from t2 h2 have
    "fs (cfs_step ''oj'' (replicate 600 ''x'') (cfs_init Map.empty) (1, ''A'', 0, 501)) = fs (cfs_init Map.empty)"
    and "current_l1_link (cfs_step ''oj'' (replicate 600 ''x'') (cfs_init Map.empty) (1, ''A'', 0, 501)) = None"
    by blast+
  ultimately show ?thesis unfolding u n p using h1 h2 by simp
qed

section \<open>Documents without headings\<close>

lemma best_match_Nil: "best_match level t [] = None"
  by (simp add: best_match_def)

lemma fold_match_node_no_positions:
  "fold match_node ast ([], hs) = ([], hs)"
  by (induction ast) (auto simp: match_node_def best_match_Nil split: block.splits)

lemma fold_match_node_no_headings:
  "list_all (\<lambda>b. b = Other) ast \<Longrightarrow> fold match_node ast st = st"
  by (induction ast arbitrary: st) (auto simp: match_node_def split: prod.splits)

lemma parse_markdown_no_headings:
  "list_all (\<lambda>b. b = Other) ast \<or> heading_positions (split_nl content) = [] \<Longrightarrow>
   parse_markdown ast content = []"
  by (auto simp: parse_markdown_def match_headings_def Let_def
      fold_match_node_no_positions fold_match_node_no_headings)

lemma save_l1_init: "save_l1 (cfs_init f) = []"
  by (simp add: save_l1_def cfs_init_def)

lemma fs_cfs_init: "fs (cfs_init f) = f"
  by (simp add: cfs_init_def)

text \<open>
  C7, as stated, fails. For a text without headings the extractor returns the empty list,
  but \<open>create_file_structure\<close> on the empty list never enters its loop: the name of the
  current level-1 section stays \<open>None\<close>, nothing is appended, and the sidebar structure is
  empty. There is no "Content" entry.
\<close>

theorem no_headings_no_content_section_cex:
  "parse_markdown [Other] ''plain text'' = [] \<and>
   create_file_structure ''oj'' (parse_markdown [Other] ''plain text'')
     [''original/oj.md'' \<mapsto> ''plain text''] =
   Inr ([], rmtree ''docs/oj'' [''original/oj.md'' \<mapsto> ''plain text'']) \<and>
   map_sum id (map nav_text \<circ> fst) (create_file_structure ''oj'' (parse_markdown [Other] ''plain text'')
     [''original/oj.md'' \<mapsto> ''plain text'']) \<noteq> Inr [''Content'']"
proof -
  have p: "parse_markdown [Other] ''plain text'' = []"
    by (rule parse_markdown_no_headings) simp
  show ?thesis unfolding p
    by (simp add: create_file_structure_def original_path_def base_dir_def save_l1_init
        fs_cfs_init)
qed

text \<open>
  C7, amended. A document without headings (no heading node in the AST, or no raw heading
  line) gives the empty list of sections; on the empty list the splitter writes no file and
  returns an empty sidebar structure. The "Content" group is created only by a level-2
  section that comes before every level-1 section.
\<close>

theorem no_headings_empty_navigation:
  "(list_all (\<lambda>b. b = Other) ast \<or> heading_positions (split_nl content) = [] \<longrightarrow>
      parse_markdown ast content = []) \<and>
   (fs0 (original_path name) = Some original \<longrightarrow>
      create_file_structure name [] fs0 = Inr ([], rmtree (base_dir name) fs0) \<and>
      map_sum id fst (create_file_structure name [(2, t, s, e)] fs0) =
        Inr [\<lparr>nav_text = ''Content'', nav_link = None,
              nav_items = [\<lparr>item_text = t, item_link = link_to name (base_name_of t)\<rparr>]\<rparr>])"
proof -
  have hn: "heading_to_name t {||} = (base_name_of t, {|base_name_of t|})"
    by (simp add: heading_to_name_def Let_def)
  have "cfs_step name (split_nl original) (cfs_init (rmtree (base_dir name) fs0)) (2, t, s, e) =
    (cfs_init (rmtree (base_dir name) fs0))
      \<lparr>current_l1_name := Some ''Content'', current_l1_link := None, used_names := {|base_name_of t|},
        fs := (fs (cfs_init (rmtree (base_dir name) fs0)))(file_path name (base_name_of t) \<mapsto>
           join_nl (to_h1 (split_nl (join_nl (slice (split_nl original) s e))))),
        current_l1_items := [\<lparr>item_text = t, item_link = link_to name (base_name_of t)\<rparr>]\<rparr>"
    by (rule cfs_step_l2_orphan) (simp_all add: cfs_init_def hn)
  then show ?thesis using parse_markdown_no_headings [of ast content]
    by (auto simp: create_file_structure_def save_l1_init Let_def save_l1_def cfs_init_def)
qed

theorem no_headings_empty_navigation_witness:
  "list_all (\<lambda>b. b = Other) [Other, Other] \<and>
   parse_markdown [Other, Other] ''plain text'' = [] \<and>
   [''original/oj.md'' \<mapsto> ''plain text''] (original_path ''oj'') = Some ''plain text'' \<and>
   create_file_structure ''oj'' [] [''original/oj.md'' \<mapsto> ''plain text''] =
     Inr ([], rmtree (base_dir ''oj'') [''original/oj.md'' \<mapsto> ''plain text''])"
proof -
  have h1: "list_all (\<lambda>b. b = Other) [Other, Other]" by simp
  have h2: "[''original/oj.md'' \<mapsto> ''plain text''] (original_path ''oj'') = Some ''plain text''"
    by (simp add: original_path_def)
  from no_headings_empty_navigation [of "[Other, Other]" "''plain text''"
      "[''original/oj.md'' \<mapsto> ''plain text'']" "''oj''" "''plain text''" "''x''" 0 1] h1 h2
  show ?thesis by blast
qed

section \<open>A level-1 heading with empty text\<close>

lemma cfs_single_short:
  assumes "fs0 (original_path name) = Some original" and "int e - int s \<le> 500"
  shows "create_file_structure name [(1, t, s, e)] fs0 =
     Inr (if t = [] then []
          else [\<lparr>nav_text = t, nav_link = Some (link_to name (base_name_of t)), nav_items = []\<rparr>],
          (rmtree (base_dir name) fs0)(file_path name (base_name_of t) \<mapsto>
             join_nl (slice (split_nl original) s e)))"
proof -
  have hn: "heading_to_name t (used_names (cfs_init f)) = (base_name_of t, {|base_name_of t|})" for f
    by (simp add: heading_to_name_def Let_def cfs_init_def)
  have "cfs_step name (split_nl original) (cfs_init f) (1, t, s, e) =
     (cfs_init f)\<lparr>sidebar_structure := save_l1 (cfs_init f), current_l1_name := Some t,
        current_l1_items := [],
        used_names := {|base_name_of t|}, current_l1_link := Some (link_to name (base_name_of t)),
        fs := (fs (cfs_init f))(file_path name (base_name_of t) \<mapsto>
                join_nl (slice (split_nl original) s e))\<rparr>" for f
    using assms(2) hn by (rule cfs_step_l1_short)
  then show ?thesis using assms(1)
    by (simp add: create_file_structure_def save_l1_init) (simp add: save_l1_def cfs_init_def)
qed

text \<open>
  C2 on a level-1 heading whose extracted text is empty (a heading that holds only an
  image): the section is short, its file \<open>unnamed.md\<close> is written, but the test
  \<open>if current_l1_name:\<close> takes the empty string for "no section" and the entry is never
  appended to the sidebar structure.
\<close>

theorem empty_heading_text_loses_nav_entry:
  "parse_markdown [Heading 1 [Nested []]] ''# ![](a.png)'' = [(1, [], 0, 1)] \<and>
   create_file_structure ''oj'' [(1, [], 0, 1)] [''original/oj.md'' \<mapsto> ''# ![](a.png)''] =
   Inr ([], (rmtree ''docs/oj'' [''original/oj.md'' \<mapsto> ''# ![](a.png)''])
              (''docs/oj/unnamed.md'' \<mapsto> ''# ![](a.png)''))"
proof -
  have p: "parse_markdown [Heading 1 [Nested []]] ''# ![](a.png)'' = [(1, [], 0, 1)]"
    by code_simp
  have b: "base_name_of [] = ''unnamed''"
    by code_simp
  have c: "join_nl (slice (split_nl ''# ![](a.png)'') 0 1) = ''# ![](a.png)''"
    by code_simp
  have d: "file_path ''oj'' ''unnamed'' = ''docs/oj/unnamed.md''" "base_dir ''oj'' = ''docs/oj''"
    by (simp_all add: file_path_def base_dir_def)
  have a: "create_file_structure ''oj'' [(1, [], 0, 1)] [''original/oj.md'' \<mapsto> ''# ![](a.png)''] =
     Inr (if ([]::string) = [] then []
          else [\<lparr>nav_text = [], nav_link = Some (link_to ''oj'' (base_name_of [])), nav_items = []\<rparr>],
          (rmtree (base_dir ''oj'') [''original/oj.md'' \<mapsto> ''# ![](a.png)''])
            (file_path ''oj'' (base_name_of []) \<mapsto>
             join_nl (slice (split_nl ''# ![](a.png)'') 0 1)))"
    by (rule cfs_single_short) (simp_all add: original_path_def)
  show ?thesis unfolding p a b c d by simp
qed

lemma basics_example:
  "create_file_structure ''oj'' [(1, ''Basics'', 0, 10)] [''original/oj.md'' \<mapsto> original] =
   Inr ([\<lparr>nav_text = ''Basics'', nav_link = Some ''/oj/basics'', nav_items = []\<rparr>],
        (rmtree ''docs/oj'' [''original/oj.md'' \<mapsto> original])
          (''docs/oj/basics.md'' \<mapsto> join_nl (slice (split_nl original) 0 10)))"
proof -
  have b: "base_name_of ''Basics'' = ''basics''"
    by code_simp
  have d: "file_path ''oj'' ''basics'' = ''docs/oj/basics.md''" "base_dir ''oj'' = ''docs/oj''"
    "link_to ''oj'' ''basics'' = ''/oj/basics''"
    by (simp_all add: file_path_def base_dir_def link_to_def)
  have "create_file_structure ''oj'' [(1, ''Basics'', 0, 10)] [''original/oj.md'' \<mapsto> original] =
     Inr (if ''Basics'' = [] then []
          else [\<lparr>nav_text = ''Basics'', nav_link = Some (link_to ''oj'' (base_name_of ''Basics'')),
                  nav_items = []\<rparr>],
          (rmtree (base_dir ''oj'') [''original/oj.md'' \<mapsto> original])
            (file_path ''oj'' (base_name_of ''Basics'') \<mapsto>
             join_nl (slice (split_nl original) 0 10)))"
    by (rule cfs_single_short) (simp_all add: original_path_def)
  then show ?thesis unfolding b d by simp
qed

section \<open>Reconciling AST headings with raw heading lines\<close>

lemma candidates_Nil [simp]: "candidates level t [] = []"
  by (simp add: candidates_def)

lemma candidates_Cons:
  "candidates level t ((i, p) # ps) =
     (if line_matches level t p then i # candidates level t ps else candidates level t ps)"
  by (simp add: candidates_def)

lemma fold_best_Some:
  "fold (\<lambda>(line_num, p) best.
           if line_matches level t p \<and> (case best of None \<Rightarrow> True | Some b \<Rightarrow> line_num < b)
           then Some line_num else best) ps (Some b) =
   Some (fold min (candidates level t ps) b)"
proof (induction ps arbitrary: b)
  case Nil
  show ?case by simp
next
  case (Cons x ps)
  obtain i p where x: "x = (i, p)" by (cases x)
  show ?case unfolding x by (simp add: Cons.IH candidates_Cons min_def)
qed

lemma fold_best_None:
  "fold (\<lambda>(line_num, p) best.
           if line_matches level t p \<and> (case best of None \<Rightarrow> True | Some b \<Rightarrow> line_num < b)
           then Some line_num else best) ps None =
   (case candidates level t ps of [] \<Rightarrow> None | c # cs \<Rightarrow> Some (fold min cs c))"
proof (induction ps)
  case Nil
  show ?case by simp
next
  case (Cons x ps)
  obtain i p where x: "x = (i, p)" by (cases x)
  show ?case unfolding x by (simp add: Cons.IH candidates_Cons fold_best_Some)
qed

lemma fold_min_Min: "fold min cs (c::nat) = Min (insert c (set cs))"
  using Min.set_eq_fold [of c cs] by simp

lemma best_match_eq:
  "best_match level t ps =
     (if candidates level t ps = [] then None else Some (Min (set (candidates level t ps))))"
  by (simp add: best_match_def fold_best_None fold_min_Min split: list.splits)

lemma match_node_heading:
  "level \<le> 2 \<Longrightarrow>
   match_node (Heading level ch) (ps, hs) =
     (if candidates level (extract_heading_text ch) ps = [] then (ps, hs)
      else (del_position (Min (set (candidates level (extract_heading_text ch) ps))) ps,
            hs @ [(level, extract_heading_text ch,
                   Min (set (candidates level (extract_heading_text ch) ps)))]))"
  by (simp add: match_node_def best_match_eq Let_def)

lemma match_node_other:
  "match_node Other st = st" "2 < level \<Longrightarrow> match_node (Heading level ch) st = st"
  by (simp_all add: match_node_def split: prod.splits)

lemma candidates_subset:
  "k \<in> set (candidates level t ps) \<Longrightarrow> \<exists>line. (k, level, line) \<in> set ps"
  by (auto simp: candidates_def line_matches_def)

lemma Min_candidates_in:
  "candidates level t ps \<noteq> [] \<Longrightarrow>
   \<exists>line. (Min (set (candidates level t ps)), level, line) \<in> set ps"
  using Min_in [of "set (candidates level t ps)"] candidates_subset by fastforce

lemma match_inv_step:
  assumes "match_inv ps0 st"
  shows "match_inv ps0 (match_node node st)"
proof -
  obtain ps hs where st: "st = (ps, hs)" by (cases st)
  show ?thesis
  proof (cases node)
    case Other
    then show ?thesis using assms by (simp add: match_node_other)
  next
    case (Heading level ch)
    show ?thesis
    proof (cases "level \<le> 2 \<and> candidates level (extract_heading_text ch) ps \<noteq> []")
      case False
      then have "match_node node st = st"
        unfolding Heading st by (cases "level \<le> 2") (simp_all add: match_node_heading match_node_other)
      then show ?thesis using assms by simp
    next
      case True
      define b where "b = Min (set (candidates level (extract_heading_text ch) ps))"
      from True Min_candidates_in obtain line where bl: "(b, level, line) \<in> set ps"
        unfolding b_def by blast
      have eq: "match_node node st = (del_position b ps, hs @ [(level, extract_heading_text ch, b)])"
        unfolding Heading st b_def using True by (simp add: match_node_heading)
      from assms have sub: "set ps \<subseteq> set ps0" and d: "distinct (starts hs)"
        and a: "list_all (\<lambda>(l, t, s). list_ex (\<lambda>(i, l', line). i = s \<and> l' = l) ps0 \<and>
                              \<not> list_ex (\<lambda>(i, l', line). i = s) ps) hs"
        unfolding st match_inv_def by auto
      have nb: "b \<notin> set (starts hs)"
        using a bl by (fastforce simp: starts_def list_all_iff list_ex_iff)
      have "set (del_position b ps) \<subseteq> set ps0"
        using sub by (auto simp: del_position_def)
      moreover have "distinct (starts (hs @ [(level, extract_heading_text ch, b)]))"
        using d nb by (simp add: starts_def)
      moreover have "list_all (\<lambda>(l, t, s). list_ex (\<lambda>(i, l', line). i = s \<and> l' = l) ps0 \<and>
                              \<not> list_ex (\<lambda>(i, l', line). i = s) (del_position b ps))
                       (hs @ [(level, extract_heading_text ch, b)])"
        using a bl sub by (fastforce simp: list_all_iff list_ex_iff del_position_def)
      ultimately show ?thesis unfolding eq match_inv_def by simp
    qed
  qed
qed

lemma match_inv_fold:
  "match_inv ps0 st \<Longrightarrow> match_inv ps0 (fold match_node ast st)"
  by (induction ast arbitrary: st) (simp_all add: match_inv_step)

lemma match_inv_init: "match_inv ps0 (ps0, [])"
  by (simp add: match_inv_def starts_def)

lemma in_positions_from:
  "(i, l, line) \<in> set (List.map_filter
       (\<lambda>(i, line). case raw_level line of Some level \<Rightarrow> Some (i, level, line) | None \<Rightarrow> None)
       (enumerate n xs)) \<longleftrightarrow>
     n \<le> i \<and> i < n + length xs \<and> line = xs ! (i - n) \<and> raw_level line = Some l"
proof (induction xs arbitrary: n i)
  case Nil
  show ?case by simp
next
  case (Cons x xs)
  show ?case
  proof (cases "i = n")
    case True
    then show ?thesis by (auto simp: Cons.IH split: option.splits)
  next
    case False
    then have "(n \<le> i) = (Suc n \<le> i)" "(x # xs) ! (i - n) = xs ! (i - Suc n)" if "n \<le> i"
      using that by (auto simp: nth_Cons')
    then show ?thesis using False by (auto simp: Cons.IH split: option.splits)
  qed
qed

lemma in_heading_positions:
  "(i, l, line) \<in> set (heading_positions lines) \<longleftrightarrow>
     i < length lines \<and> line = lines ! i \<and> raw_level line = Some l"
  unfolding heading_positions_def by (simp add: in_positions_from)

lemma match_headings_starts:
  "distinct (starts (match_headings ast (heading_positions lines))) \<and>
   list_all (\<lambda>(l, t, s). s < length lines \<and> raw_level (lines ! s) = Some l)
     (match_headings ast (heading_positions lines))"
proof -
  obtain ps hs where f: "fold match_node ast (heading_positions lines, []) = (ps, hs)"
    by (cases "fold match_node ast (heading_positions lines, [])")
  from match_inv_fold [OF match_inv_init, of "heading_positions lines" ast]
  have "match_inv (heading_positions lines) (ps, hs)" unfolding f .
  then show ?thesis
    unfolding match_headings_def f
    by (auto simp: match_inv_def list_all_iff list_ex_iff in_heading_positions)
qed

lemma line_matches_iff:
  "line_matches level t (ll, lc) \<longleftrightarrow>
     ll = level \<and> (sublist t (strip (drop level lc)) \<or> prefix (take 20 t) (strip (drop level lc)))"
  by (simp add: line_matches_def Let_def)

lemma Min_candidates_least:
  assumes "candidates level t ps \<noteq> []"
  shows "(\<exists>line. (Min (set (candidates level t ps)), level, line) \<in> set ps \<and>
                 line_matches level t (level, line)) \<and>
         list_all (\<lambda>(i, p). line_matches level t p \<longrightarrow> Min (set (candidates level t ps)) \<le> i) ps"
proof -
  have "Min (set (candidates level t ps)) \<in> set (candidates level t ps)"
    using assms by (intro Min_in) simp_all
  then have "\<exists>line. (Min (set (candidates level t ps)), level, line) \<in> set ps \<and>
                 line_matches level t (level, line)"
    by (auto simp: candidates_def line_matches_def)
  moreover have "Min (set (candidates level t ps)) \<le> i" if "(i, p) \<in> set ps" "line_matches level t p"
    for i p
  proof -
    have "i \<in> set (candidates level t ps)" using that by (force simp: candidates_def)
    then show ?thesis by simp
  qed
  ultimately show ?thesis by (auto simp: list_all_iff)
qed

lemma del_position_keys: "fst ` set (del_position k ps) = fst ` set ps - {k}"
  by (force simp: del_position_def)

text \<open>
  C5. One round of the second pass, for an AST heading of level at most 2 with extracted
  text \<open>t\<close>: a raw heading line matches when it has the same level and its text (the line
  without its marker, stripped) contains \<open>t\<close> or starts with the first 20 characters of
  \<open>t\<close>; among the positions not yet claimed, the heading gets the matching one with the
  least line number, which is then removed from the positions; when no position matches,
  nothing is appended and the heading is left out. Over the whole pass the start lines
  handed out are pairwise different, and each is a raw heading line of the level of its heading.
\<close>

theorem earliest_unclaimed_match:
  "(line_matches level t (ll, lc) \<longleftrightarrow>
      ll = level \<and>
      (sublist t (strip (drop level lc)) \<or> prefix (take 20 t) (strip (drop level lc)))) \<and>
   (level \<le> 2 \<longrightarrow>
      match_node (Heading level ch) (ps, hs) =
        (if candidates level (extract_heading_text ch) ps = [] then (ps, hs)
         else (del_position (Min (set (candidates level (extract_heading_text ch) ps))) ps,
               hs @ [(level, extract_heading_text ch,
                      Min (set (candidates level (extract_heading_text ch) ps)))]))) \<and>
   (candidates level t ps \<noteq> [] \<longrightarrow>
      (\<exists>line. (Min (set (candidates level t ps)), level, line) \<in> set ps \<and>
              line_matches level t (level, line)) \<and>
      list_all (\<lambda>(i, p). line_matches level t p \<longrightarrow> Min (set (candidates level t ps)) \<le> i) ps) \<and>
   fst ` set (del_position k ps) = fst ` set ps - {k} \<and>
   distinct (starts (match_headings ast (heading_positions lines))) \<and>
   list_all (\<lambda>(l, t, s). s < length lines \<and> raw_level (lines ! s) = Some l)
     (match_headings ast (heading_positions lines))"
  using line_matches_iff [of level t ll lc] match_node_heading [of level ch ps hs]
    Min_candidates_least [of level t ps] del_position_keys [of k ps]
    match_headings_starts [of ast lines]
  by blast

theorem earliest_unclaimed_match_witness:
  "(1::nat) \<le> 2 \<and>
   candidates 1 ''Intro'' (heading_positions [''# Intro'', ''text'', ''# Intro'']) = [0, 2] \<and>
   match_node (Heading 1 [Raw ''Intro''])
     (heading_positions [''# Intro'', ''text'', ''# Intro''], []) =
     ([(2, 1, ''# Intro'')], [(1, ''Intro'', 0)]) \<and>
   match_headings [Heading 1 [Raw ''Intro''], Other, Heading 1 [Raw ''Intro''], Heading 1 [Raw ''Intro'']]
     (heading_positions [''# Intro'', ''text'', ''# Intro'']) =
     [(1, ''Intro'', 0), (1, ''Intro'', 2)] \<and>
   distinct (starts (match_headings
     [Heading 1 [Raw ''Intro''], Other, Heading 1 [Raw ''Intro''], Heading 1 [Raw ''Intro'']]
     (heading_positions [''# Intro'', ''text'', ''# Intro''])))"
proof -
  have h: "(1::nat) \<le> 2" by simp
  have e: "extract_heading_text [Raw ''Intro''] = ''Intro''"
    by (simp add: extract_heading_text_def)
  have c: "candidates 1 ''Intro'' (heading_positions [''# Intro'', ''text'', ''# Intro'']) = [0, 2]"
    by code_simp
  have d: "del_position 0 (heading_positions [''# Intro'', ''text'', ''# Intro'']) = [(2, 1, ''# Intro'')]"
    by code_simp
  have m: "match_headings [Heading 1 [Raw ''Intro''], Other, Heading 1 [Raw ''Intro''], Heading 1 [Raw ''Intro'']]
     (heading_positions [''# Intro'', ''text'', ''# Intro'']) =
     [(1, ''Intro'', 0), (1, ''Intro'', 2)]"
    by code_simp
  note t = earliest_unclaimed_match [of 1 "''Intro''" 1 "''# Intro''" "[Raw ''Intro'']"
      "heading_positions [''# Intro'', ''text'', ''# Intro'']" "[]" 0
      "[Heading 1 [Raw ''Intro''], Other, Heading 1 [Raw ''Intro''], Heading 1 [Raw ''Intro'']]"
      "[''# Intro'', ''text'', ''# Intro'']"]
  let ?P = "heading_positions [''# Intro'', ''text'', ''# Intro'']"
  let ?C = "candidates 1 (extract_heading_text [Raw ''Intro'']) ?P"
  from t h have "match_node (Heading 1 [Raw ''Intro'']) (?P, []) =
        (if ?C = [] then (?P, [])
         else (del_position (Min (set ?C)) ?P,
               [] @ [(1, extract_heading_text [Raw ''Intro''], Min (set ?C))]))"
    by blast
  then have n: "match_node (Heading 1 [Raw ''Intro''])
     (heading_positions [''# Intro'', ''text'', ''# Intro''], []) =
     ([(2, 1, ''# Intro'')], [(1, ''Intro'', 0)])"
    unfolding e c by (simp add: d)
  from t have "distinct (starts (match_headings
     [Heading 1 [Raw ''Intro''], Other, Heading 1 [Raw ''Intro''], Heading 1 [Raw ''Intro'']]
     (heading_positions [''# Intro'', ''text'', ''# Intro''])))"
    by blast
  then show ?thesis using h c n m by blast
qed

section \<open>Section spans\<close>

lemma find_end_find:
  "find_end l n rest =
     (case find (\<lambda>(l', t', s'). l' \<le> l) rest of None \<Rightarrow> n | Some (l', t', s') \<Rightarrow> s')"
  by (induction rest) auto

lemma length_build_sections [simp]: "length (build_sections n hs) = length hs"
  by (induction hs) auto

lemma build_sections_nth:
  "i < length hs \<Longrightarrow>
   build_sections n hs ! i =
     (case hs ! i of (l, t, s) \<Rightarrow> (l, t, s, find_end l n (drop (Suc i) hs)))"
proof (induction hs arbitrary: i)
  case Nil
  then show ?case by simp
next
  case (Cons h hs)
  obtain l t s where h: "h = (l, t, s)" by (cases h)
  show ?case using Cons by (cases i) (simp_all add: h)
qed

lemma find_end_le:
  "list_all (\<lambda>(l', t', s'). s' \<le> n) rest \<Longrightarrow> find_end l n rest \<le> n"
  by (induction rest) auto

lemma find_end_gt:
  "list_all (\<lambda>(l', t', s'). s < s') rest \<Longrightarrow> s < n \<Longrightarrow> s < find_end l n rest"
  by (induction rest) auto

lemma find_end_ge:
  "list_all (\<lambda>(l', t', s'). s \<le> s') rest \<Longrightarrow> s \<le> n \<Longrightarrow> s \<le> find_end l n rest"
  by (induction rest) auto

lemma sorted_starts_Cons:
  "sorted_wrt (<) (starts ((l, t, s) # rest)) \<longleftrightarrow>
     list_all (\<lambda>(l', t', s'). s < s') rest \<and> sorted_wrt (<) (starts rest)"
  by (auto simp: starts_def list_all_iff)

lemma list_all_mono':
  "list_all P xs \<Longrightarrow> (\<And>x. P x \<Longrightarrow> Q x) \<Longrightarrow> list_all Q xs"
  by (auto simp: list_all_iff)

lemma find_end_antimono:
  assumes "l \<le> l'" "sorted_wrt (<) (starts rest)" "list_all (\<lambda>(l', t', s'). s' \<le> n) rest"
  shows "find_end l' n rest \<le> find_end l n rest"
  using assms(2,3)
proof (induction rest)
  case Nil
  show ?case by simp
next
  case (Cons h rest)
  obtain l1 t1 s1 where h: "h = (l1, t1, s1)" by (cases h)
  from Cons.prems have gt: "list_all (\<lambda>(l', t', s'). s1 < s') rest"
    and so: "sorted_wrt (<) (starts rest)" and le: "list_all (\<lambda>(l', t', s'). s' \<le> n) rest"
    and s1n: "s1 \<le> n"
    unfolding h by (simp_all add: sorted_starts_Cons)
  have ge: "list_all (\<lambda>(l', t', s'). s1 \<le> s') rest"
    by (rule list_all_mono' [OF gt]) auto
  show ?case
  proof (cases "l1 \<le> l")
    case True
    then show ?thesis using assms(1) by (simp add: h)
  next
    case False
    show ?thesis
    proof (cases "l1 \<le> l'")
      case True
      then show ?thesis using False find_end_ge [OF ge s1n, of l] by (simp add: h)
    next
      case False
      then show ?thesis using \<open>\<not> l1 \<le> l\<close> Cons.IH [OF so le] by (simp add: h)
    qed
  qed
qed

lemma build_sections_starts:
  "list_all (\<lambda>(l', t', s'). P s') rest \<Longrightarrow>
   list_all (\<lambda>(l', t', s', e'). P s') (build_sections n rest)"
  by (induction rest) auto

lemma later_sections_laminar:
  assumes "list_all (\<lambda>(l', t', s'). s < s') rest" "sorted_wrt (<) (starts rest)"
    "list_all (\<lambda>(l', t', s'). s' \<le> n) rest"
  shows "list_all (\<lambda>(l', t', s', e'). find_end l n rest \<le> s' \<or> (s \<le> s' \<and> e' \<le> find_end l n rest))
           (build_sections n rest)"
  using assms
proof (induction rest)
  case Nil
  show ?case by simp
next
  case (Cons h rest)
  obtain l1 t1 s1 where h: "h = (l1, t1, s1)" by (cases h)
  from Cons.prems have ss1: "s < s1" and gts: "list_all (\<lambda>(l', t', s'). s < s') rest"
    and gt: "list_all (\<lambda>(l', t', s'). s1 < s') rest"
    and so: "sorted_wrt (<) (starts rest)" and le: "list_all (\<lambda>(l', t', s'). s' \<le> n) rest"
    and s1n: "s1 \<le> n"
    unfolding h by (simp_all add: sorted_starts_Cons)
  show ?case
  proof (cases "l1 \<le> l")
    case True
    have "list_all (\<lambda>(l', t', s', e'). s1 \<le> s') (build_sections n rest)"
      by (rule build_sections_starts) (rule list_all_mono' [OF gt], auto)
    then have "list_all (\<lambda>(l', t', s', e'). s1 \<le> s' \<or> (s \<le> s' \<and> e' \<le> s1)) (build_sections n rest)"
      by (rule list_all_mono') auto
    then show ?thesis using True by (simp add: h)
  next
    case False
    then have "l \<le> l1" by simp
    from find_end_antimono [OF this so le]
    have "find_end l1 n rest \<le> find_end l n rest" .
    then show ?thesis using False ss1 Cons.IH [OF gts so le] by (simp add: h)
  qed
qed

lemma build_sections_laminar:
  assumes "sorted_wrt (<) (starts hs)" "list_all (\<lambda>(l', t', s'). s' < n) hs"
  shows "spans_laminar (build_sections n hs)"
  using assms
proof (induction hs)
  case Nil
  show ?case by simp
next
  case (Cons h hs)
  obtain l t s where h: "h = (l, t, s)" by (cases h)
  from Cons.prems have gt: "list_all (\<lambda>(l', t', s'). s < s') hs"
    and so: "sorted_wrt (<) (starts hs)" and lt: "list_all (\<lambda>(l', t', s'). s' < n) hs"
    and sn: "s < n"
    unfolding h by (simp_all add: sorted_starts_Cons)
  have le: "list_all (\<lambda>(l', t', s'). s' \<le> n) hs"
    by (rule list_all_mono' [OF lt]) auto
  have "s \<le> find_end l n hs"
    using find_end_gt [OF gt sn, of l] by simp
  then show ?case
    using later_sections_laminar [OF gt so le, of l] Cons.IH [OF so lt] by (simp add: h)
qed

lemma parse_markdown_laminar:
  assumes "sorted_wrt (<) (starts (match_headings ast (heading_positions (split_nl content))))"
  shows "spans_laminar (parse_markdown ast content)"
proof -
  have "list_all (\<lambda>(l, t, s). s < length (split_nl content))
          (match_headings ast (heading_positions (split_nl content)))"
    by (rule list_all_mono' [OF match_headings_starts [THEN conjunct2]]) auto
  from build_sections_laminar [OF assms this] show ?thesis
    by (simp add: parse_markdown_def Let_def)
qed

text \<open>
  C6, as stated, fails in its last part. The end line of a section is the start line of the
  next heading of the list whose level is not greater, but the start lines come from the
  reconciliation and need not increase along the list: a heading can be matched to a raw
  line that lies before the line of the heading in front of it (here the line "## B" inside
  a fenced code block). The section "A B" then runs from line 4 to line 1, and the section
  "B", from line 1, begins before its parent "X", from line 3.
\<close>

theorem spans_overlap_when_matched_out_of_order_cex:
  "parse_markdown [Other, Heading 1 [Raw ''X''], Heading 2 [Raw ''A B''], Heading 2 [Raw ''B'']]
     (join_nl [''~~~'', ''## B'', ''~~~'', ''# X'', ''## A B'', ''## B'']) =
     [(1, ''X'', 3, 6), (2, ''A B'', 4, 1), (2, ''B'', 1, 6)] \<and>
   \<not> spans_laminar
     (parse_markdown [Other, Heading 1 [Raw ''X''], Heading 2 [Raw ''A B''], Heading 2 [Raw ''B'']]
        (join_nl [''~~~'', ''## B'', ''~~~'', ''# X'', ''## A B'', ''## B'']))"
proof -
  have p: "parse_markdown [Other, Heading 1 [Raw ''X''], Heading 2 [Raw ''A B''], Heading 2 [Raw ''B'']]
     (join_nl [''~~~'', ''## B'', ''~~~'', ''# X'', ''## A B'', ''## B'']) =
     [(1, ''X'', 3, 6), (2, ''A B'', 4, 1), (2, ''B'', 1, 6)]"
    by code_simp
  show ?thesis unfolding p by simp
qed

text \<open>
  C6, amended. The sections are the extracted headings in the order of the list; the end
  line of each is the start line of the next heading of the list whose level is less than
  or equal to its own, or the number of lines of the document when there is none. When the
  start lines of the extracted headings increase along the list, every span is well
  formed, and two sections either do not overlap or the later one lies inside the earlier
  one.
\<close>

theorem section_end_is_next_heading_start:
  "parse_markdown ast content =
     build_sections (length (split_nl content))
       (match_headings ast (heading_positions (split_nl content))) \<and>
   length (build_sections n hs) = length hs \<and>
   (i < length hs \<longrightarrow>
      build_sections n hs ! i =
        (case hs ! i of (l, t, s) \<Rightarrow>
           (l, t, s, case find (\<lambda>(l', t', s'). l' \<le> l) (drop (Suc i) hs) of
                       None \<Rightarrow> n | Some (l', t', s') \<Rightarrow> s'))) \<and>
   (sorted_wrt (<) (starts (match_headings ast (heading_positions (split_nl content)))) \<longrightarrow>
      spans_laminar (parse_markdown ast content))"
  using build_sections_nth [of i hs n] parse_markdown_laminar [of ast content]
  by (simp add: find_end_find parse_markdown_def Let_def split: prod.splits)

theorem section_end_is_next_heading_start_witness:
  "(1::nat) < length [(1::nat, ''X'', 0::nat), (2, ''A'', 1), (2, ''B'', 3), (1, ''Y'', 4)] \<and>
   build_sections 5 [(1, ''X'', 0), (2, ''A'', 1), (2, ''B'', 3), (1, ''Y'', 4)] ! 1 = (2, ''A'', 1, 3) \<and>
   sorted_wrt (<) (starts (match_headings
      [Heading 1 [Raw ''X''], Heading 2 [Raw ''A''], Other, Heading 2 [Raw ''B''], Heading 1 [Raw ''Y'']]
      (heading_positions (split_nl (join_nl [''# X'', ''## A'', ''text'', ''## B'', ''# Y'']))))) \<and>
   parse_markdown
      [Heading 1 [Raw ''X''], Heading 2 [Raw ''A''], Other, Heading 2 [Raw ''B''], Heading 1 [Raw ''Y'']]
      (join_nl [''# X'', ''## A'', ''text'', ''## B'', ''# Y'']) =
     [(1, ''X'', 0, 4), (2, ''A'', 1, 3), (2, ''B'', 3, 4), (1, ''Y'', 4, 5)] \<and>
   spans_laminar (parse_markdown
      [Heading 1 [Raw ''X''], Heading 2 [Raw ''A''], Other, Heading 2 [Raw ''B''], Heading 1 [Raw ''Y'']]
      (join_nl [''# X'', ''## A'', ''text'', ''## B'', ''# Y'']))"
proof -
  let ?A = "[Heading 1 [Raw ''X''], Heading 2 [Raw ''A''], Other, Heading 2 [Raw ''B''], Heading 1 [Raw ''Y'']]"
  let ?C = "join_nl [''# X'', ''## A'', ''text'', ''## B'', ''# Y'']"
  let ?H = "[(1::nat, ''X'', 0::nat), (2, ''A'', 1), (2, ''B'', 3), (1, ''Y'', 4)]"
  have h1: "(1::nat) < length ?H" by simp
  have h2: "sorted_wrt (<) (starts (match_headings ?A (heading_positions (split_nl ?C))))"
    by code_simp
  have p: "parse_markdown ?A ?C = [(1, ''X'', 0, 4), (2, ''A'', 1, 3), (2, ''B'', 3, 4), (1, ''Y'', 4, 5)]"
    by code_simp
  note t = section_end_is_next_heading_start [of ?A ?C 5 ?H 1]
  from t h1 have "build_sections 5 ?H ! 1 =
        (case ?H ! 1 of (l, t, s) \<Rightarrow>
           (l, t, s, case find (\<lambda>(l', t', s'). l' \<le> l) (drop (Suc 1) ?H) of
                       None \<Rightarrow> 5 | Some (l', t', s') \<Rightarrow> s'))"
    by blast
  then have b: "build_sections 5 ?H ! 1 = (2, ''A'', 1, 3)" by simp
  from t h2 have "spans_laminar (parse_markdown ?A ?C)" by blast
  then show ?thesis using h1 h2 p b by blast
qed

section \<open>Lines and contents\<close>

lemma split_nl_not_Nil [simp]: "split_nl s \<noteq> []"
  by (induction s) (auto split: list.splits)

lemma split_nl_no_newline: "l \<in> set (split_nl s) \<Longrightarrow> CHR 0x0A \<notin> set l"
proof (induction s arbitrary: l)
  case Nil
  then show ?case by simp
next
  case (Cons c s)
  then show ?case by (cases "split_nl s") (auto split: if_splits)
qed

lemma split_nl_lines: "list_all (\<lambda>l. CHR 0x0A \<notin> set l) (split_nl s)"
  using split_nl_no_newline by (auto simp: list_all_iff)

lemma split_nl_append:
  "CHR 0x0A \<notin> set l \<Longrightarrow>
   split_nl (l @ s) = (case split_nl s of x # xs \<Rightarrow> (l @ x) # xs | [] \<Rightarrow> [l])"
  by (induction l) (auto split: list.splits)

lemma split_nl_line: "CHR 0x0A \<notin> set l \<Longrightarrow> split_nl l = [l]"
  using split_nl_append [of l "[]"] by simp

lemma split_join:
  "xs \<noteq> [] \<Longrightarrow> list_all (\<lambda>l. CHR 0x0A \<notin> set l) xs \<Longrightarrow> split_nl (join_nl xs) = xs"
proof (induction xs rule: join_nl.induct)
  case 1
  then show ?case by simp
next
  case (2 l)
  then show ?case by (simp add: split_nl_line)
next
  case (3 l m ls)
  then show ?case by (simp add: split_nl_append)
qed

lemma length_to_h1 [simp]: "length (to_h1 xs) = length xs"
  by (induction xs) auto

lemma to_h1_nth:
  "k < length xs \<Longrightarrow>
   to_h1 xs ! k = xs ! k \<or> (prefix ''## '' (xs ! k) \<and> to_h1 xs ! k = drop 1 (xs ! k))"
proof (induction xs arbitrary: k)
  case Nil
  then show ?case by simp
next
  case (Cons x xs)
  then show ?case by (cases k) auto
qed

lemma to_h1_split_join:
  assumes "list_all (\<lambda>l. CHR 0x0A \<notin> set l) xs"
  shows "join_nl (to_h1 (split_nl (join_nl xs))) = join_nl (to_h1 xs)"
proof (cases "xs = []")
  case True
  then show ?thesis by simp
next
  case False
  then show ?thesis using assms by (simp add: split_join)
qed

lemma list_all_slice: "list_all P xs \<Longrightarrow> list_all P (slice xs s e)"
  by (auto simp: slice_def list_all_iff dest: in_set_takeD in_set_dropD)

lemma slice_nth:
  "k < length (slice xs s e) \<Longrightarrow> slice xs s e ! k = xs ! (s + k) \<and> s + k < e \<and> s + k < length xs"
  by (auto simp: slice_def)

section \<open>What the Section Splitter writes\<close>

lemma cfs_step_fs:
  assumes "list_all (\<lambda>l. CHR 0x0A \<notin> set l) lines" "fs (cfs_step name lines st sec) p = Some c"
  shows "fs st p = Some c \<or> span_file lines sec c"
proof -
  obtain l t s e where sec: "sec = (l, t, s, e)" by (cases sec) auto
  have "join_nl (to_h1 (split_nl (join_nl (slice lines s e)))) = join_nl (to_h1 (slice lines s e))"
    by (rule to_h1_split_join) (rule list_all_slice [OF assms(1)])
  then show ?thesis using assms(2) unfolding sec
    by (auto simp: cfs_step_def Let_def span_file_def split: prod.splits if_splits)
qed

lemma cfs_fold_fs:
  assumes "list_all (\<lambda>l. CHR 0x0A \<notin> set l) lines"
  shows "fs (foldl (cfs_step name lines) st secs) p = Some c \<Longrightarrow>
         fs st p = Some c \<or> list_ex (\<lambda>sec. span_file lines sec c) secs"
proof (induction secs arbitrary: st)
  case Nil
  then show ?case by simp
next
  case (Cons sec secs)
  from Cons.IH [of "cfs_step name lines st sec"] Cons.prems
  have "fs (cfs_step name lines st sec) p = Some c \<or> list_ex (\<lambda>sec. span_file lines sec c) secs"
    by simp
  then show ?case using cfs_step_fs [OF assms, of name st sec p c] by auto
qed

lemma span_file_lines:
  assumes "span_file lines (l, t, s, e) c"
  shows "\<exists>ls. c = join_nl ls \<and> length ls = length (slice lines s e) \<and>
           (\<forall>k<length ls. s + k < e \<and> s + k < length lines \<and>
              (ls ! k = lines ! (s + k) \<or>
               (prefix ''## '' (lines ! (s + k)) \<and> ls ! k = drop 1 (lines ! (s + k)))))"
proof -
  from assms consider "c = join_nl (slice lines s e)" | "c = join_nl (to_h1 (slice lines s e))"
    by (auto simp: span_file_def)
  then show ?thesis
  proof cases
    case 1
    then show ?thesis using slice_nth [of _ lines s e]
      by (intro exI [of _ "slice lines s e"]) auto
  next
    case 2
    have "to_h1 (slice lines s e) ! k = lines ! (s + k) \<or>
          (prefix ''## '' (lines ! (s + k)) \<and> to_h1 (slice lines s e) ! k = drop 1 (lines ! (s + k)))"
      if "k < length (slice lines s e)" for k
      using to_h1_nth [OF that] slice_nth [OF that] by auto
    then show ?thesis using 2 slice_nth [of _ lines s e]
      by (intro exI [of _ "to_h1 (slice lines s e)"]) auto
  qed
qed

text \<open>
  C10. Every file that \<open>create_file_structure\<close> leaves below the output directory of the
  document holds the lines of the span of one of the sections it was given: as many lines
  as the span has inside the document, the \<open>k\<close>-th of them being line \<open>start + k\<close> of the
  document (or that line without its first \<open>#\<close>, for the one heading line that is
  rewritten), with \<open>start + k < end\<close>. So a line number that lies below the start line of
  every section is the number of no written line.
\<close>

theorem written_lines_lie_in_section_spans:
  assumes "create_file_structure name sections fs0 = Inr (nav, fs1)"
    and "fs1 p = Some c" and "prefix (base_dir name @ ''/'') p"
  shows "\<exists>l t s e ls. (l, t, s, e) \<in> set sections \<and> c = join_nl ls \<and>
           length ls = length (slice (split_nl (the (fs0 (original_path name)))) s e) \<and>
           (\<forall>k<length ls. s + k < e \<and> s + k < length (split_nl (the (fs0 (original_path name)))) \<and>
              (ls ! k = split_nl (the (fs0 (original_path name))) ! (s + k) \<or>
               (prefix ''## '' (split_nl (the (fs0 (original_path name))) ! (s + k)) \<and>
                ls ! k = drop 1 (split_nl (the (fs0 (original_path name))) ! (s + k)))) \<and>
              (\<forall>m. list_all (\<lambda>(l', t', s', e'). m < s') sections \<longrightarrow> m < s + k))"
proof -
  from assms(1) obtain original where o: "fs0 (original_path name) = Some original"
    by (auto simp: create_file_structure_def split: option.splits)
  let ?lines = "split_nl original"
  from assms(1) o have f: "fs1 = fs (foldl (cfs_step name ?lines)
      (cfs_init (rmtree (base_dir name) fs0)) sections)"
    by (simp add: create_file_structure_def Let_def)
  have "fs (cfs_init (rmtree (base_dir name) fs0)) p = None"
    using assms(3) by (simp add: fs_cfs_init rmtree_def)
  moreover have "fs (foldl (cfs_step name ?lines) (cfs_init (rmtree (base_dir name) fs0)) sections) p =
      Some c"
    using assms(2) f by simp
  ultimately have "list_ex (\<lambda>sec. span_file ?lines sec c) sections"
    using cfs_fold_fs [OF split_nl_lines, of name original "cfs_init (rmtree (base_dir name) fs0)"
        sections p c]
    by simp
  then obtain l t s e where m: "(l, t, s, e) \<in> set sections" and sf: "span_file ?lines (l, t, s, e) c"
    by (auto simp: list_ex_iff)
  from span_file_lines [OF sf] obtain ls where ls: "c = join_nl ls"
    "length ls = length (slice ?lines s e)"
    "\<forall>k<length ls. s + k < e \<and> s + k < length ?lines \<and>
              (ls ! k = ?lines ! (s + k) \<or>
               (prefix ''## '' (?lines ! (s + k)) \<and> ls ! k = drop 1 (?lines ! (s + k))))"
    by blast
  have "m' < s + k" if "list_all (\<lambda>(l', t', s', e'). m' < s') sections" for m' k
    using that m by (fastforce simp: list_all_iff)
  then show ?thesis using m ls unfolding o by (intro exI [of _ l] exI [of _ t] exI [of _ s] exI [of _ e] exI [of _ ls]) auto
qed

theorem written_lines_lie_in_section_spans_witness:
  "create_file_structure ''oj'' [(1, ''A'', 1, 3)]
     [''original/oj.md'' \<mapsto> join_nl [''intro'', ''# A'', ''x'']] =
     Inr ([\<lparr>nav_text = ''A'', nav_link = Some ''/oj/a'', nav_items = []\<rparr>],
          (rmtree ''docs/oj'' [''original/oj.md'' \<mapsto> join_nl [''intro'', ''# A'', ''x'']])
            (''docs/oj/a.md'' \<mapsto> join_nl [''# A'', ''x''])) \<and>
   prefix (base_dir ''oj'' @ ''/'') ''docs/oj/a.md'' \<and>
   (\<exists>l t s e ls. (l, t, s, e) \<in> set [(1::nat, ''A'', 1::nat, 3::nat)] \<and>
      join_nl [''# A'', ''x''] = join_nl ls \<and>
      (\<forall>k<length ls. s + k < e \<and>
         (\<forall>m. list_all (\<lambda>(l', t', s', e'). m < s') [(1::nat, ''A'', 1::nat, 3::nat)] \<longrightarrow> m < s + k)))"
proof -
  let ?D = "join_nl [''intro'', ''# A'', ''x'']"
  let ?F = "[''original/oj.md'' \<mapsto> ?D]"
  let ?F1 = "(rmtree ''docs/oj'' ?F)(''docs/oj/a.md'' \<mapsto> join_nl [''# A'', ''x''])"
  let ?N = "[\<lparr>nav_text = ''A'', nav_link = Some ''/oj/a'', nav_items = []\<rparr>]"
  have b: "base_name_of ''A'' = ''a''"
    by code_simp
  have d: "file_path ''oj'' ''a'' = ''docs/oj/a.md''" "base_dir ''oj'' = ''docs/oj''"
    "link_to ''oj'' ''a'' = ''/oj/a''"
    by (simp_all add: file_path_def base_dir_def link_to_def)
  have c: "join_nl (slice (split_nl ?D) 1 3) = join_nl [''# A'', ''x'']"
    by code_simp
  have o: "?F (original_path ''oj'') = Some ?D"
    by (simp add: original_path_def)
  have "create_file_structure ''oj'' [(1, ''A'', 1, 3)] ?F =
     Inr (if ''A'' = [] then []
          else [\<lparr>nav_text = ''A'', nav_link = Some (link_to ''oj'' (base_name_of ''A'')),
                  nav_items = []\<rparr>],
          (rmtree (base_dir ''oj'') ?F)
            (file_path ''oj'' (base_name_of ''A'') \<mapsto> join_nl (slice (split_nl ?D) 1 3)))"
    using o by (rule cfs_single_short) simp
  then have h1: "create_file_structure ''oj'' [(1, ''A'', 1, 3)] ?F = Inr (?N, ?F1)"
    unfolding b c d by simp
  have h2: "?F1 ''docs/oj/a.md'' = Some (join_nl [''# A'', ''x''])"
    by simp
  have h3: "prefix (base_dir ''oj'' @ ''/'') ''docs/oj/a.md''"
    by (simp add: base_dir_def)
  from written_lines_lie_in_section_spans [OF h1 h2 h3]
  obtain l t s e ls where "(l, t, s, e) \<in> set [(1::nat, ''A'', 1::nat, 3::nat)]"
    "join_nl [''# A'', ''x''] = join_nl ls"
    "\<forall>k<length ls. s + k < e \<and>
         (\<forall>m. list_all (\<lambda>(l', t', s', e'). m < s') [(1::nat, ''A'', 1::nat, 3::nat)] \<longrightarrow> m < s + k)"
    by blast
  then show ?thesis using h1 h3 by blast
qed

section \<open>The level-2 files of a long section\<close>

lemma join_nl_Cons:
  "join_nl (x # xs) = x @ (if xs = [] then [] else CHR 0x0A # join_nl xs)"
  by (cases xs) simp_all

lemma join_nl_append:
  "xs \<noteq> [] \<Longrightarrow> ys \<noteq> [] \<Longrightarrow> join_nl (xs @ ys) = join_nl xs @ CHR 0x0A # join_nl ys"
  by (induction xs rule: join_nl.induct) (simp_all add: join_nl_Cons)

lemma join_nl_concat:
  "list_all (\<lambda>xs. xs \<noteq> []) xss \<Longrightarrow> join_nl (map join_nl xss) = join_nl (concat xss)"
proof (induction xss)
  case Nil
  show ?case by simp
next
  case (Cons xs xss)
  show ?case
  proof (cases xss)
    case Nil
    then show ?thesis by simp
  next
    case (Cons ys rest)
    then have "concat xss \<noteq> []" using Cons.prems by simp
    then show ?thesis using Cons.prems Cons.IH Cons join_nl_append [of xs "concat xss"] by simp
  qed
qed

lemma slice_append:
  "s \<le> e \<Longrightarrow> e \<le> e' \<Longrightarrow> slice xs s e @ slice xs e e' = slice xs s e'"
proof -
  assume a: "s \<le> e" "e \<le> e'"
  have "take (e - s) (drop s xs) @ take (e' - e) (drop (e - s) (drop s xs)) =
        take ((e - s) + (e' - e)) (drop s xs)"
    by (simp add: take_add)
  then show ?thesis using a by (simp add: slice_def)
qed

lemma slice_not_Nil: "s < e \<Longrightarrow> e \<le> length xs \<Longrightarrow> slice xs s e \<noteq> []"
  by (simp add: slice_def)

lemma hd_slice: "s < e \<Longrightarrow> e \<le> length xs \<Longrightarrow> slice xs s e = xs ! s # slice xs (Suc s) e"
  by (simp add: slice_def Cons_nth_drop_Suc take_Suc_Cons [symmetric] Suc_diff_Suc del: take_Suc_Cons)

lemma chained_start_less_end:
  assumes "cs \<noteq> []" "chained cs" "list_all (\<lambda>(l, t, s, e). s < e) cs"
  shows "fst (snd (snd (hd cs))) < snd (snd (snd (last cs)))"
  using assms
proof (induction cs rule: chained.induct)
  case 1
  then show ?case by simp
next
  case (2 c)
  then show ?case by (cases c) auto
next
  case (3 l t s e l' t' s' e' rest)
  then have "s' < snd (snd (snd (last ((l', t', s', e') # rest))))" by simp
  then show ?case using 3 by simp
qed

lemma concat_chained_slices:
  assumes "cs \<noteq> []" "chained cs" "list_all (\<lambda>(l, t, s, e). s < e) cs"
  shows "concat (map (\<lambda>(l, t, s, e). slice xs s e) cs) =
         slice xs (fst (snd (snd (hd cs)))) (snd (snd (snd (last cs))))"
  using assms
proof (induction cs rule: chained.induct)
  case 1
  then show ?case by simp
next
  case (2 c)
  then show ?case by (cases c) auto
next
  case (3 l t s e l' t' s' e' rest)
  let ?z = "snd (snd (snd (last ((l', t', s', e') # rest))))"
  from 3 have ih: "concat (map (\<lambda>(l, t, s, e). slice xs s e) ((l', t', s', e') # rest)) =
     slice xs s' ?z"
    by simp
  have "s' < ?z"
    using chained_start_less_end [of "(l', t', s', e') # rest"] 3 by simp
  then have "slice xs s e @ slice xs s' ?z = slice xs s ?z"
    using 3 slice_append [of s e ?z xs] by simp
  then show ?case using ih by simp
qed

lemma to_h1_unchanged: "list_all (\<lambda>x. \<not> prefix ''## '' x) xs \<Longrightarrow> to_h1 xs = xs"
  by (induction xs) auto

lemma to_h1_first:
  "list_all (\<lambda>x. \<not> prefix ''## '' x) pre \<Longrightarrow> prefix ''## '' x \<Longrightarrow>
   to_h1 (pre @ x # post) = pre @ drop 1 x # post"
  by (induction pre) auto

lemma restore_to_h1:
  assumes "prefix ''## '' x"
  shows "restore_h2 (join_nl (to_h1 (x # xs))) = join_nl (x # xs)"
proof -
  from assms obtain r where x: "x = ''## '' @ r" by (auto simp: prefix_def)
  show ?thesis unfolding x by (simp add: restore_h2_def join_nl_Cons)
qed

lemma restore_slice:
  assumes "s < e" "e \<le> length xs" "prefix ''## '' (xs ! s)"
  shows "restore_h2 (join_nl (to_h1 (slice xs s e))) = join_nl (slice xs s e)"
  unfolding hd_slice [OF assms(1,2)] using assms(3) by (rule restore_to_h1)

lemma file_path_inj: "file_path name a = file_path name b \<Longrightarrow> a = b"
  by (simp add: file_path_def)

lemma distinct_l2_names: "distinct (l2_names cs used)"
  using allocate_all_fresh by (simp add: l2_names_def)

lemma length_l2_names [simp]: "length (l2_names cs used) = length cs"
proof -
  have "length (allocate_all hs used) = length hs" for hs
    by (induction hs arbitrary: used) (auto split: prod.splits)
  then show ?thesis by (simp add: l2_names_def)
qed

lemma l2_names_Cons:
  "heading_to_name t used = (n, u) \<Longrightarrow> l2_names ((l, t, s, e) # cs) used = n # l2_names cs u"
  by (simp add: l2_names_def)

lemma l2_names_fresh:
  "heading_to_name t used = (n, u) \<Longrightarrow> n \<notin> set (l2_names cs u)"
  using allocate_all_fresh [of "map (\<lambda>(l, t, s, e). t) cs" u] heading_to_name_fresh [of t used n u]
  by (auto simp: l2_names_def)

lemma cfs_fold_children:
  assumes "current_l1_link st = None" "current_l1_name st \<noteq> None"
    "list_all (\<lambda>c. fst c = 2) cs"
  shows "(\<forall>i<length cs.
            fs (foldl (cfs_step name lines) st cs) (file_path name (l2_names cs (used_names st) ! i)) =
              Some (l2_content lines (cs ! i))) \<and>
         (\<forall>p. p \<notin> file_path name ` set (l2_names cs (used_names st)) \<longrightarrow>
              fs (foldl (cfs_step name lines) st cs) p = fs st p) \<and>
         current_l1_items (foldl (cfs_step name lines) st cs) =
           current_l1_items st @ map2 (l2_item name) cs (l2_names cs (used_names st)) \<and>
         current_l1_link (foldl (cfs_step name lines) st cs) = None \<and>
         current_l1_name (foldl (cfs_step name lines) st cs) = current_l1_name st \<and>
         sidebar_structure (foldl (cfs_step name lines) st cs) = sidebar_structure st"
  using assms
proof (induction cs arbitrary: st)
  case Nil
  then show ?case by (simp add: l2_names_def)
next
  case (Cons c cs)
  obtain l t s e where c: "c = (l, t, s, e)" by (cases c) auto
  from Cons.prems(3) have l: "l = 2" and rest: "list_all (\<lambda>c. fst c = 2) cs"
    by (simp_all add: c)
  obtain n u where hn: "heading_to_name t (used_names st) = (n, u)"
    by (cases "heading_to_name t (used_names st)")
  let ?st1 = "cfs_step name lines st c"
  have st1: "?st1 = st\<lparr>used_names := u,
        fs := (fs st)(file_path name n \<mapsto> l2_content lines c),
        current_l1_items := current_l1_items st @ [l2_item name c n]\<rparr>"
    using cfs_step_l2_split [OF Cons.prems(2,1) hn, of name lines s e]
    by (simp add: c l l2_content_def l2_item_def)
  have p1: "current_l1_link ?st1 = None" "current_l1_name ?st1 \<noteq> None" "used_names ?st1 = u"
    using Cons.prems(1,2) by (simp_all add: st1)
  note ih = Cons.IH [OF p1(1,2) rest, unfolded p1(3)]
  have names: "l2_names (c # cs) (used_names st) = n # l2_names cs u"
    unfolding c using hn by (rule l2_names_Cons)
  have fresh: "file_path name n \<notin> file_path name ` set (l2_names cs u)"
    using l2_names_fresh [OF hn, of cs] file_path_inj by auto
  let ?f = "fs (foldl (cfs_step name lines) ?st1 cs)"
  have a: "?f (file_path name n) = Some (l2_content lines c)"
    using ih fresh by (simp add: st1)
  have "?f (file_path name ((n # l2_names cs u) ! i)) = Some (l2_content lines ((c # cs) ! i))"
    if "i < length (c # cs)" for i
  proof (cases i)
    case 0
    then show ?thesis using a by simp
  next
    case (Suc j)
    then show ?thesis using ih that by simp
  qed
  moreover have "?f p = fs st p" if "p \<notin> file_path name ` set (n # l2_names cs u)" for p
    using ih that by (simp add: st1)
  moreover have "current_l1_items (foldl (cfs_step name lines) ?st1 cs) =
           current_l1_items st @ map2 (l2_item name) (c # cs) (n # l2_names cs u)"
    using ih by (simp add: st1)
  moreover have "current_l1_link (foldl (cfs_step name lines) ?st1 cs) = None"
    "current_l1_name (foldl (cfs_step name lines) ?st1 cs) = current_l1_name st"
    "sidebar_structure (foldl (cfs_step name lines) ?st1 cs) = sidebar_structure st"
    using ih by (simp_all add: st1)
  ultimately show ?case unfolding names by simp
qed

lemma l2_content_eq:
  "list_all (\<lambda>l. CHR 0x0A \<notin> set l) lines \<Longrightarrow>
   l2_content lines c = join_nl (to_h1 (span_lines lines c))"
  by (cases c)
    (simp add: l2_content_def span_lines_def sec_start_def sec_end_def to_h1_split_join
      list_all_slice)

lemma heading_first_span:
  assumes "heading_first lines c"
  obtains x xs where "span_lines lines c = x # xs" "prefix ''## '' x"
  using assms by (auto simp: heading_first_def split: list.splits)

lemma heading_first_less:
  assumes "heading_first lines c"
  shows "sec_start c < sec_end c"
proof (rule ccontr)
  assume "\<not> sec_start c < sec_end c"
  then have "span_lines lines c = []" by (simp add: span_lines_def slice_def)
  then show False using assms by (simp add: heading_first_def)
qed

lemma restore_l2_content:
  assumes "list_all (\<lambda>l. CHR 0x0A \<notin> set l) lines" "heading_first lines c"
  shows "restore_h2 (l2_content lines c) = join_nl (span_lines lines c)"
proof -
  from assms(2) obtain x xs where x: "span_lines lines c = x # xs" "prefix ''## '' x"
    by (rule heading_first_span)
  show ?thesis
    unfolding l2_content_eq [OF assms(1)] x(1) using x(2) by (rule restore_to_h1)
qed

lemma join_restored:
  assumes "list_all (\<lambda>l. CHR 0x0A \<notin> set l) lines" "cs \<noteq> []" "chained cs"
    "list_all (heading_first lines) cs"
  shows "join_nl (map (\<lambda>c. restore_h2 (l2_content lines c)) cs) =
         join_nl (slice lines (sec_start (hd cs)) (sec_end (last cs)))"
proof -
  have m: "map (\<lambda>c. restore_h2 (l2_content lines c)) cs = map join_nl (map (span_lines lines) cs)"
    using assms(4) restore_l2_content [OF assms(1)] by (simp add: list_all_iff)
  have ne: "list_all (\<lambda>xs. xs \<noteq> []) (map (span_lines lines) cs)"
    using assms(4) by (auto simp: list_all_iff heading_first_def split: list.splits)
  have "list_all (\<lambda>(l, t, s, e). s < e) cs"
    using assms(4) heading_first_less [of lines]
    by (auto simp: list_all_iff sec_start_def sec_end_def)
  then have "concat (map (\<lambda>(l, t, s, e). slice lines s e) cs) =
     slice lines (fst (snd (snd (hd cs)))) (snd (snd (snd (last cs))))"
    by (rule concat_chained_slices [OF assms(2,3)])
  moreover have "span_lines lines = (\<lambda>(l, t, s, e). slice lines s e)"
    by (auto simp: span_lines_def sec_start_def sec_end_def fun_eq_iff)
  ultimately have "concat (map (span_lines lines) cs) =
     slice lines (sec_start (hd cs)) (sec_end (last cs))"
    by (simp add: sec_start_def sec_end_def)
  then have "join_nl (map join_nl (map (span_lines lines) cs)) =
     join_nl (slice lines (sec_start (hd cs)) (sec_end (last cs)))"
    using join_nl_concat [OF ne] by simp
  then show ?thesis unfolding m .
qed

text \<open>
  Two sections that follow each other in the list of the Heading Extractor, the second of
  a level not greater than the first: the first ends where the second starts.
\<close>

lemma build_sections_adjacent:
  assumes "build_sections len hs = ps @ c # c' # ss" "fst c' \<le> fst c"
  shows "sec_end c = sec_start c'"
  using assms(1)
proof (induction hs arbitrary: ps)
  case Nil
  then show ?case by simp
next
  case (Cons h rest)
  obtain l t s where h: "h = (l, t, s)" by (cases h)
  show ?case
  proof (cases ps)
    case Nil
    with Cons.prems have c: "c = (l, t, s, find_end l len rest)"
      and r: "build_sections len rest = c' # ss"
      by (simp_all add: h)
    from r obtain l' t' s' rest' where rest: "rest = (l', t', s') # rest'"
      by (cases rest) auto
    with r have c': "c' = (l', t', s', find_end l' len rest')" by simp
    from assms(2) have "l' \<le> l" by (simp add: c c')
    then show ?thesis by (simp add: c c' rest sec_end_def sec_start_def)
  next
    case (Cons q qs)
    with Cons.prems have "build_sections len rest = qs @ c # c' # ss" by (simp add: h)
    then show ?thesis by (rule Cons.IH)
  qed
qed

lemma sublist_chained:
  assumes "sublist cs (build_sections len hs)" "list_all (\<lambda>c. fst c = 2) cs"
  shows "chained cs"
  using assms
proof (induction cs rule: chained.induct)
  case 1
  show ?case by simp
next
  case (2 c)
  show ?case by simp
next
  case (3 l t s e l' t' s' e' rest)
  from "3.prems"(1) obtain ps ss where
    b: "build_sections len hs = ps @ ((l, t, s, e) # (l', t', s', e') # rest) @ ss"
    by (auto simp: sublist_def)
  then have "build_sections len hs = ps @ (l, t, s, e) # (l', t', s', e') # (rest @ ss)"
    by simp
  moreover have "fst (l', t', s', e') \<le> fst (l, t, s, e)" using "3.prems"(2) by simp
  ultimately have "sec_end (l, t, s, e) = sec_start (l', t', s', e')"
    by (rule build_sections_adjacent)
  then have "e = s'" by (simp add: sec_end_def sec_start_def)
  moreover have "sublist ((l', t', s', e') # rest) (build_sections len hs)"
    unfolding sublist_def using b
    by (intro exI [of _ "ps @ [(l, t, s, e)]"] exI [of _ ss]) simp
  ultimately show ?case using "3.IH" "3.prems"(2) by simp
qed

lemma cfs_long_one_child:
  assumes "fs0 (original_path name) = Some original" "500 < int e - int s" "t \<noteq> []"
  shows "create_file_structure name [(1, t, s, e), (2, t2, s2, e2)] fs0 =
     Inr ([\<lparr>nav_text = t, nav_link = None,
            nav_items = [\<lparr>item_text = t2, item_link = link_to name (base_name_of t2)\<rparr>]\<rparr>],
          (rmtree (base_dir name) fs0)(file_path name (base_name_of t2) \<mapsto>
             join_nl (to_h1 (slice (split_nl original) s2 e2))))"
proof -
  let ?lines = "split_nl original"
  let ?st0 = "cfs_init (rmtree (base_dir name) fs0)"
  let ?st1 = "cfs_step name ?lines ?st0 (1, t, s, e)"
  have st1: "?st1 = ?st0\<lparr>sidebar_structure := save_l1 ?st0, current_l1_name := Some t,
        current_l1_items := [], current_l1_link := None\<rparr>"
    using assms(2) by (rule cfs_step_l1_long)
  have p: "current_l1_name ?st1 \<noteq> None" "current_l1_link ?st1 = None"
    "heading_to_name t2 (used_names ?st1) = (base_name_of t2, {|base_name_of t2|})"
    unfolding st1 by (simp_all add: heading_to_name_def Let_def cfs_init_def)
  have c: "join_nl (to_h1 (split_nl (join_nl (slice ?lines s2 e2)))) =
           join_nl (to_h1 (slice ?lines s2 e2))"
    by (rule to_h1_split_join) (rule list_all_slice [OF split_nl_lines])
  have "foldl (cfs_step name ?lines) ?st0 [(1, t, s, e), (2, t2, s2, e2)] =
     ?st1\<lparr>used_names := {|base_name_of t2|},
        fs := (fs ?st1)(file_path name (base_name_of t2) \<mapsto> join_nl (to_h1 (slice ?lines s2 e2))),
        current_l1_items := current_l1_items ?st1 @
          [\<lparr>item_text = t2, item_link = link_to name (base_name_of t2)\<rparr>]\<rparr>"
    using cfs_step_l2_split [OF p, of name ?lines s2 e2] by (simp add: c)
  then show ?thesis using assms(1,3)
    unfolding st1 by (simp add: create_file_structure_def save_l1_def cfs_init_def)
qed

lemma cfs_long_two_children:
  assumes "fs0 (original_path name) = Some original" "500 < int e - int s" "t \<noteq> []"
    "heading_to_name t3 {|base_name_of t2|} = (n3, u3)"
  shows "create_file_structure name [(1, t, s, e), (2, t2, s2, e2), (2, t3, s3, e3)] fs0 =
     Inr ([\<lparr>nav_text = t, nav_link = None,
            nav_items = [\<lparr>item_text = t2, item_link = link_to name (base_name_of t2)\<rparr>,
                         \<lparr>item_text = t3, item_link = link_to name n3\<rparr>]\<rparr>],
          (rmtree (base_dir name) fs0)
            (file_path name (base_name_of t2) \<mapsto>
               join_nl (to_h1 (slice (split_nl original) s2 e2)),
             file_path name n3 \<mapsto> join_nl (to_h1 (slice (split_nl original) s3 e3))))"
proof -
  let ?lines = "split_nl original"
  let ?X = "rmtree (base_dir name) fs0"
  let ?i2 = "\<lparr>item_text = t2, item_link = link_to name (base_name_of t2)\<rparr>"
  let ?i3 = "\<lparr>item_text = t3, item_link = link_to name n3\<rparr>"
  let ?X2 = "?X(file_path name (base_name_of t2) \<mapsto> join_nl (to_h1 (slice ?lines s2 e2)))"
  let ?X3 = "?X2(file_path name n3 \<mapsto> join_nl (to_h1 (slice ?lines s3 e3)))"
  let ?S1 = "\<lparr>used_names = {||}, current_l1_name = Some t, sidebar_structure = [],
              current_l1_items = [], current_l1_link = None, fs = ?X\<rparr>"
  let ?S2 = "\<lparr>used_names = {|base_name_of t2|}, current_l1_name = Some t, sidebar_structure = [],
              current_l1_items = [?i2], current_l1_link = None, fs = ?X2\<rparr>"
  let ?S3 = "\<lparr>used_names = u3, current_l1_name = Some t, sidebar_structure = [],
              current_l1_items = [?i2, ?i3], current_l1_link = None, fs = ?X3\<rparr>"
  have c: "join_nl (to_h1 (split_nl (join_nl (slice ?lines a b)))) =
           join_nl (to_h1 (slice ?lines a b))" for a b
    by (rule to_h1_split_join) (rule list_all_slice [OF split_nl_lines])
  have e1: "cfs_step name ?lines (cfs_init ?X) (1, t, s, e) = ?S1"
    unfolding cfs_step_l1_long [OF assms(2)] by (simp add: cfs_init_def save_l1_def)
  have h2: "heading_to_name t2 (used_names ?S1) = (base_name_of t2, {|base_name_of t2|})"
    by (simp add: heading_to_name_def Let_def)
  have p1: "current_l1_name ?S1 \<noteq> None" "current_l1_link ?S1 = None" by simp_all
  have e2: "cfs_step name ?lines ?S1 (2, t2, s2, e2) = ?S2"
    unfolding cfs_step_l2_split [OF p1 h2, of name ?lines s2 e2] c by simp
  have h3: "heading_to_name t3 (used_names ?S2) = (n3, u3)"
    using assms(4) by simp
  have p2: "current_l1_name ?S2 \<noteq> None" "current_l1_link ?S2 = None" by simp_all
  have e3: "cfs_step name ?lines ?S2 (2, t3, s3, e3) = ?S3"
    unfolding cfs_step_l2_split [OF p2 h3, of name ?lines s3 e3] c by simp
  have "foldl (cfs_step name ?lines) (cfs_init ?X) [(1, t, s, e), (2, t2, s2, e2), (2, t3, s3, e3)] =
        ?S3"
    by (simp only: foldl.simps e1 e2 e3)
  then show ?thesis using assms(1,3)
    by (simp add: create_file_structure_def save_l1_def Let_def)
qed

lemma length_join_nl:
  "length (join_nl xs) = sum_list (map length xs) + (length xs - 1)"
  by (induction xs rule: join_nl.induct) simp_all

lemma split_long_doc: "split_nl long_doc = long_lines"
  unfolding long_doc_def by (rule split_join) (simp_all add: long_lines_def list_all_iff)

lemma slice_long_lines:
  "slice long_lines 1 3 = [''## B'', ''b'']"
  "slice long_lines 3 504 = ''## C'' # replicate 500 ''x''"
  "slice long_lines 1 504 = ''## B'' # ''b'' # ''## C'' # replicate 500 ''x''"
  "slice long_lines 0 504 = ''# A'' # ''## B'' # ''b'' # ''## C'' # replicate 500 ''x''"
  by (simp_all add: slice_def long_lines_def)

lemma split_tab_doc: "split_nl tab_doc = tab_lines"
  unfolding tab_doc_def
  by (rule split_join) (simp_all add: tab_lines_def tab_heading_def list_all_iff)

lemma slice_tab_lines:
  "slice tab_lines 1 505 = tab_heading # ''~~~'' # ''## x'' # ''~~~'' # replicate 500 ''x''"
  by (simp add: slice_def tab_lines_def)

text \<open>
  C1, as stated, fails, in three ways.

  The first document is "# A", "## B", "b", "## C" and 500 lines "x": the level-1 section A
  has 504 lines and is long, and its level-2 sections B and C get the files \<open>b.md\<close> and
  \<open>c.md\<close>. With their markers restored, the two files concatenated are not the content of
  section A, and joined by a newline they are not either: the line "# A" is written to no
  file. Concatenated they are not even the lines from "## B" on, since each file is the
  lines of its span joined by newlines and the newline between the two spans is in
  neither.

  In the second document the level-2 heading has a tab after its marker and is followed
  by a fenced code block that holds the line "## x". The file of the section begins with
  the heading line as it is, the line in the code block is the one that loses a \<open>#\<close>, and
  restoring a leading \<open>'# '\<close> changes nothing: the file is not the content of its section.
\<close>

theorem long_section_round_trip_cex:
  "create_file_structure ''oj'' [(1, ''A'', 0, 504), (2, ''B'', 1, 3), (2, ''C'', 3, 504)]
     [''original/oj.md'' \<mapsto> long_doc] =
     Inr ([\<lparr>nav_text = ''A'', nav_link = None,
            nav_items = [\<lparr>item_text = ''B'', item_link = ''/oj/b''\<rparr>,
                         \<lparr>item_text = ''C'', item_link = ''/oj/c''\<rparr>]\<rparr>],
          (rmtree ''docs/oj'' [''original/oj.md'' \<mapsto> long_doc])
            (''docs/oj/b.md'' \<mapsto> join_nl [''# B'', ''b''],
             ''docs/oj/c.md'' \<mapsto> join_nl (''# C'' # replicate 500 ''x''))) \<and>
   concat (map restore_h2 [join_nl [''# B'', ''b''], join_nl (''# C'' # replicate 500 ''x'')]) \<noteq>
     join_nl (slice (split_nl long_doc) 0 504) \<and>
   join_nl (map restore_h2 [join_nl [''# B'', ''b''], join_nl (''# C'' # replicate 500 ''x'')]) \<noteq>
     join_nl (slice (split_nl long_doc) 0 504) \<and>
   concat (map restore_h2 [join_nl [''# B'', ''b''], join_nl (''# C'' # replicate 500 ''x'')]) \<noteq>
     join_nl (slice (split_nl long_doc) 1 504) \<and>
   create_file_structure ''oj'' [(1, ''A'', 0, 505), (2, ''B'', 1, 505)]
     [''original/oj.md'' \<mapsto> tab_doc] =
     Inr ([\<lparr>nav_text = ''A'', nav_link = None,
            nav_items = [\<lparr>item_text = ''B'', item_link = ''/oj/b''\<rparr>]\<rparr>],
          (rmtree ''docs/oj'' [''original/oj.md'' \<mapsto> tab_doc])
            (''docs/oj/b.md'' \<mapsto>
               join_nl (tab_heading # ''~~~'' # ''# x'' # ''~~~'' # replicate 500 ''x''))) \<and>
   restore_h2 (join_nl (tab_heading # ''~~~'' # ''# x'' # ''~~~'' # replicate 500 ''x'')) \<noteq>
     join_nl (slice (split_nl tab_doc) 1 505)"
proof -
  let ?b = "join_nl [''# B'', ''b'']"
  let ?c = "join_nl (''# C'' # replicate 500 ''x'')"
  let ?t = "join_nl (tab_heading # ''~~~'' # ''# x'' # ''~~~'' # replicate 500 ''x'')"
  have b: "base_name_of ''B'' = ''b''" by code_simp
  have c: "heading_to_name ''C'' {|''b''|} = (''c'', {|''c'', ''b''|})" by code_simp
  have c': "heading_to_name ''C'' {|base_name_of ''B''|} = (''c'', {|''c'', ''b''|})"
    unfolding b by (rule c)
  have d: "file_path ''oj'' ''b'' = ''docs/oj/b.md''" "file_path ''oj'' ''c'' = ''docs/oj/c.md''"
    "base_dir ''oj'' = ''docs/oj''" "link_to ''oj'' ''b'' = ''/oj/b''" "link_to ''oj'' ''c'' = ''/oj/c''"
    by (simp_all add: file_path_def base_dir_def link_to_def)
  have "create_file_structure ''oj'' [(1, ''A'', 0, 504), (2, ''B'', 1, 3), (2, ''C'', 3, 504)]
     [''original/oj.md'' \<mapsto> long_doc] =
     Inr ([\<lparr>nav_text = ''A'', nav_link = None,
            nav_items = [\<lparr>item_text = ''B'', item_link = link_to ''oj'' (base_name_of ''B'')\<rparr>,
                         \<lparr>item_text = ''C'', item_link = link_to ''oj'' ''c''\<rparr>]\<rparr>],
          (rmtree (base_dir ''oj'') [''original/oj.md'' \<mapsto> long_doc])
            (file_path ''oj'' (base_name_of ''B'') \<mapsto>
               join_nl (to_h1 (slice (split_nl long_doc) 1 3)),
             file_path ''oj'' ''c'' \<mapsto> join_nl (to_h1 (slice (split_nl long_doc) 3 504))))"
    by (rule cfs_long_two_children [OF _ _ _ c']) (simp_all add: original_path_def)
  then have one: "create_file_structure ''oj'' [(1, ''A'', 0, 504), (2, ''B'', 1, 3), (2, ''C'', 3, 504)]
     [''original/oj.md'' \<mapsto> long_doc] =
     Inr ([\<lparr>nav_text = ''A'', nav_link = None,
            nav_items = [\<lparr>item_text = ''B'', item_link = ''/oj/b''\<rparr>,
                         \<lparr>item_text = ''C'', item_link = ''/oj/c''\<rparr>]\<rparr>],
          (rmtree ''docs/oj'' [''original/oj.md'' \<mapsto> long_doc])
            (''docs/oj/b.md'' \<mapsto> ?b, ''docs/oj/c.md'' \<mapsto> ?c))"
    unfolding b d split_long_doc slice_long_lines by simp
  have r: "restore_h2 ?b = join_nl [''## B'', ''b'']"
    "restore_h2 ?c = join_nl (''## C'' # replicate 500 ''x'')"
    by (simp_all add: restore_h2_def join_nl_Cons)
  have len: "length (restore_h2 ?b) = 6" "length (restore_h2 ?c) = 1004"
    unfolding r by (simp_all add: length_join_nl sum_list_replicate)
  have len0: "length (join_nl (slice (split_nl long_doc) 0 504)) = 1015"
    unfolding split_long_doc slice_long_lines by (simp add: length_join_nl sum_list_replicate)
  have len1: "length (join_nl (slice (split_nl long_doc) 1 504)) = 1011"
    unfolding split_long_doc slice_long_lines by (simp add: length_join_nl sum_list_replicate)
  have lc: "length (concat (map restore_h2 [?b, ?c])) = 1010"
    using len by simp
  have lj: "length (join_nl (map restore_h2 [?b, ?c])) = 1011"
    using len by simp
  have two: "concat (map restore_h2 [?b, ?c]) \<noteq> join_nl (slice (split_nl long_doc) 0 504)"
  proof
    assume "concat (map restore_h2 [?b, ?c]) = join_nl (slice (split_nl long_doc) 0 504)"
    then have "length (concat (map restore_h2 [?b, ?c])) =
        length (join_nl (slice (split_nl long_doc) 0 504))"
      by (rule arg_cong)
    then show False unfolding lc len0 by simp
  qed
  have three: "join_nl (map restore_h2 [?b, ?c]) \<noteq> join_nl (slice (split_nl long_doc) 0 504)"
  proof
    assume "join_nl (map restore_h2 [?b, ?c]) = join_nl (slice (split_nl long_doc) 0 504)"
    then have "length (join_nl (map restore_h2 [?b, ?c])) =
        length (join_nl (slice (split_nl long_doc) 0 504))"
      by (rule arg_cong)
    then show False unfolding lj len0 by simp
  qed
  have four: "concat (map restore_h2 [?b, ?c]) \<noteq> join_nl (slice (split_nl long_doc) 1 504)"
  proof
    assume "concat (map restore_h2 [?b, ?c]) = join_nl (slice (split_nl long_doc) 1 504)"
    then have "length (concat (map restore_h2 [?b, ?c])) =
        length (join_nl (slice (split_nl long_doc) 1 504))"
      by (rule arg_cong)
    then show False unfolding lc len1 by simp
  qed
  have "create_file_structure ''oj'' [(1, ''A'', 0, 505), (2, ''B'', 1, 505)]
     [''original/oj.md'' \<mapsto> tab_doc] =
     Inr ([\<lparr>nav_text = ''A'', nav_link = None,
            nav_items = [\<lparr>item_text = ''B'', item_link = link_to ''oj'' (base_name_of ''B'')\<rparr>]\<rparr>],
          (rmtree (base_dir ''oj'') [''original/oj.md'' \<mapsto> tab_doc])
            (file_path ''oj'' (base_name_of ''B'') \<mapsto>
             join_nl (to_h1 (slice (split_nl tab_doc) 1 505))))"
    by (rule cfs_long_one_child) (simp_all add: original_path_def)
  moreover have "to_h1 (tab_heading # ''~~~'' # ''## x'' # ''~~~'' # replicate 500 ''x'') =
        tab_heading # ''~~~'' # ''# x'' # ''~~~'' # replicate 500 ''x''"
    by (simp add: tab_heading_def)
  ultimately have five: "create_file_structure ''oj'' [(1, ''A'', 0, 505), (2, ''B'', 1, 505)]
     [''original/oj.md'' \<mapsto> tab_doc] =
     Inr ([\<lparr>nav_text = ''A'', nav_link = None,
            nav_items = [\<lparr>item_text = ''B'', item_link = ''/oj/b''\<rparr>]\<rparr>],
          (rmtree ''docs/oj'' [''original/oj.md'' \<mapsto> tab_doc])(''docs/oj/b.md'' \<mapsto> ?t))"
    unfolding b d split_tab_doc slice_tab_lines by simp
  have rt: "restore_h2 ?t = ?t"
    by (simp add: restore_h2_def join_nl_Cons tab_heading_def)
  have lt: "length ?t = 1016"
    by (simp add: length_join_nl tab_heading_def sum_list_replicate)
  have lo: "length (join_nl (slice (split_nl tab_doc) 1 505)) = 1017"
    unfolding split_tab_doc slice_tab_lines by (simp add: length_join_nl tab_heading_def sum_list_replicate)
  have six: "restore_h2 ?t \<noteq> join_nl (slice (split_nl tab_doc) 1 505)"
  proof
    assume "restore_h2 ?t = join_nl (slice (split_nl tab_doc) 1 505)"
    then have "length ?t = length (join_nl (slice (split_nl tab_doc) 1 505))"
      unfolding rt by (rule arg_cong)
    then show False unfolding lt lo by simp
  qed
  show ?thesis using one two three four five six by (intro conjI)
qed

text \<open>
  C1, amended. Let a level-1 section be long (more than 500 lines) and let \<open>cs\<close> be
  level-2 sections that follow it. The level-1 step itself writes nothing. Every level-2
  section gets a file of its own, under a name given to no other, and no other file
  changes. The file holds the lines of the section's span joined by newlines, in which
  only the first line that starts with \<open>'## '\<close> has lost one \<open>#\<close>; every other line is as
  it was. When the sections are the level-1 section and the sections that follow it in the
  list of the Heading Extractor, each of them ends where the next begins; and if moreover
  every level-2 span begins with a line that starts with \<open>'## '\<close>, then the files, each with
  its leading \<open>'# '\<close> restored to \<open>'## '\<close>, joined by newlines in document order, are byte
  for byte the lines of the document from the start of the first level-2 section to the end
  of the last.
\<close>

theorem long_section_level2_files:
  assumes "500 < int e - int s" and "list_all (\<lambda>c. fst c = 2) cs"
  shows "fs (cfs_step name (split_nl original) st (1, t, s, e)) = fs st \<and>
    distinct (l2_names cs (used_names st)) \<and>
    (\<forall>i<length cs.
       fs (foldl (cfs_step name (split_nl original))
             (cfs_step name (split_nl original) st (1, t, s, e)) cs)
          (file_path name (l2_names cs (used_names st) ! i)) =
       Some (join_nl (to_h1 (span_lines (split_nl original) (cs ! i))))) \<and>
    (\<forall>p. p \<notin> file_path name ` set (l2_names cs (used_names st)) \<longrightarrow>
       fs (foldl (cfs_step name (split_nl original))
             (cfs_step name (split_nl original) st (1, t, s, e)) cs) p = fs st p) \<and>
    (list_all (\<lambda>x. \<not> prefix ''## '' x) xs \<longrightarrow> to_h1 xs = xs) \<and>
    (list_all (\<lambda>x. \<not> prefix ''## '' x) pre \<and> prefix ''## '' x \<longrightarrow>
       to_h1 (pre @ x # post) = pre @ drop 1 x # post) \<and>
    (sublist ((1, t, s, e) # cs) (build_sections len hs) \<longrightarrow> chained cs) \<and>
    (cs \<noteq> [] \<and> sublist ((1, t, s, e) # cs) (build_sections len hs) \<and>
     list_all (heading_first (split_nl original)) cs \<longrightarrow>
       join_nl (map (\<lambda>n. restore_h2 (the
          (fs (foldl (cfs_step name (split_nl original))
             (cfs_step name (split_nl original) st (1, t, s, e)) cs) (file_path name n))))
          (l2_names cs (used_names st))) =
       join_nl (slice (split_nl original) (sec_start (hd cs)) (sec_end (last cs))))"
proof -
  let ?lines = "split_nl original"
  let ?st1 = "cfs_step name ?lines st (1, t, s, e)"
  let ?st' = "foldl (cfs_step name ?lines) ?st1 cs"
  let ?names = "l2_names cs (used_names st)"
  have nonl: "list_all (\<lambda>l. CHR 0x0A \<notin> set l) ?lines" by (rule split_nl_lines)
  have st1: "?st1 = st\<lparr>sidebar_structure := save_l1 st, current_l1_name := Some t,
        current_l1_items := [], current_l1_link := None\<rparr>"
    using assms(1) by (rule cfs_step_l1_long)
  have p: "current_l1_link ?st1 = None" "current_l1_name ?st1 \<noteq> None"
    "used_names ?st1 = used_names st" "fs ?st1 = fs st"
    unfolding st1 by simp_all
  note f = cfs_fold_children [OF p(1,2) assms(2), of name ?lines, unfolded p(3,4)]
  have files: "fs ?st' (file_path name (?names ! i)) =
      Some (join_nl (to_h1 (span_lines ?lines (cs ! i))))" if "i < length cs" for i
    using f that by (simp add: l2_content_eq [OF nonl])
  have frame: "fs ?st' p = fs st p" if "p \<notin> file_path name ` set ?names" for p
    using f that by simp
  have ch: "chained cs" if "sublist ((1, t, s, e) # cs) (build_sections len hs)"
  proof -
    from that obtain ps ss where "build_sections len hs = ps @ ((1, t, s, e) # cs) @ ss"
      by (auto simp: sublist_def)
    then have "sublist cs (build_sections len hs)"
      unfolding sublist_def by (intro exI [of _ "ps @ [(1, t, s, e)]"] exI [of _ ss]) simp
    then show ?thesis using assms(2) by (rule sublist_chained)
  qed
  have rt: "join_nl (map (\<lambda>n. restore_h2 (the (fs ?st' (file_path name n)))) ?names) =
       join_nl (slice ?lines (sec_start (hd cs)) (sec_end (last cs)))"
    if "cs \<noteq> []" "sublist ((1, t, s, e) # cs) (build_sections len hs)"
      "list_all (heading_first ?lines) cs"
  proof -
    have "map (\<lambda>n. restore_h2 (the (fs ?st' (file_path name n)))) ?names =
          map (\<lambda>c. restore_h2 (l2_content ?lines c)) cs"
      using f by (simp add: list_eq_iff_nth_eq)
    then show ?thesis using join_restored [OF nonl that(1) ch [OF that(2)] that(3)] by simp
  qed
  show ?thesis
    using p(4) distinct_l2_names [of cs "used_names st"] files frame rt ch
      to_h1_unchanged [of xs] to_h1_first [of pre x post]
    by blast
qed

theorem long_section_level2_files_witness:
  "500 < int 504 - int 0 \<and>
   list_all (\<lambda>c. fst c = 2) [(2::nat, ''B'', 1::nat, 3::nat), (2, ''C'', 3, 504)] \<and>
   sublist [(1, ''A'', 0, 504), (2, ''B'', 1, 3), (2, ''C'', 3, 504)]
     (build_sections 504 [(1, ''A'', 0), (2, ''B'', 1), (2, ''C'', 3)]) \<and>
   list_all (heading_first (split_nl long_doc)) [(2, ''B'', 1, 3), (2, ''C'', 3, 504)] \<and>
   chained [(2::nat, ''B'', 1::nat, 3::nat), (2, ''C'', 3, 504)] \<and>
   l2_names [(2, ''B'', 1, 3), (2, ''C'', 3, 504)] {||} = [''b'', ''c''] \<and>
   fs (foldl (cfs_step ''oj'' (split_nl long_doc))
         (cfs_step ''oj'' (split_nl long_doc) (cfs_init Map.empty) (1, ''A'', 0, 504))
         [(2, ''B'', 1, 3), (2, ''C'', 3, 504)]) (file_path ''oj'' ''b'') =
     Some (join_nl [''# B'', ''b'']) \<and>
   fs (foldl (cfs_step ''oj'' (split_nl long_doc))
         (cfs_step ''oj'' (split_nl long_doc) (cfs_init Map.empty) (1, ''A'', 0, 504))
         [(2, ''B'', 1, 3), (2, ''C'', 3, 504)]) (file_path ''oj'' ''c'') =
     Some (join_nl (''# C'' # replicate 500 ''x'')) \<and>
   join_nl [restore_h2 (join_nl [''# B'', ''b'']),
            restore_h2 (join_nl (''# C'' # replicate 500 ''x''))] =
     join_nl (slice (split_nl long_doc) 1 504)"
proof -
  let ?cs = "[(2::nat, ''B'', 1::nat, 3::nat), (2, ''C'', 3, 504)]"
  let ?hs = "[(1::nat, ''A'', 0::nat), (2, ''B'', 1), (2, ''C'', 3)]"
  let ?st = "cfs_init Map.empty"
  let ?st' = "foldl (cfs_step ''oj'' (split_nl long_doc))
         (cfs_step ''oj'' (split_nl long_doc) ?st (1, ''A'', 0, 504)) ?cs"
  have h1: "500 < int 504 - int 0" by simp
  have h2: "list_all (\<lambda>c. fst c = 2) ?cs" by simp
  have h3: "sublist ((1, ''A'', 0, 504) # ?cs) (build_sections 504 ?hs)" by simp
  have sp: "span_lines (split_nl long_doc) (2, ''B'', 1, 3) = [''## B'', ''b'']"
    "span_lines (split_nl long_doc) (2, ''C'', 3, 504) = ''## C'' # replicate 500 ''x''"
    unfolding span_lines_def sec_start_def sec_end_def split_long_doc fst_conv snd_conv
      slice_long_lines
    by (rule refl)+
  have h4: "list_all (heading_first (split_nl long_doc)) ?cs"
    unfolding list.pred_inject heading_first_def sp by simp
  have u: "used_names ?st = {||}" by (simp add: cfs_init_def)
  have n: "l2_names ?cs {||} = [''b'', ''c'']" by code_simp
  note t = long_section_level2_files [OF h1 h2, of "''oj''" long_doc ?st "''A''" _ _ _ _ 504 ?hs,
      unfolded u n]
  from t have all: "\<forall>i<length ?cs. fs ?st' (file_path ''oj'' ([''b'', ''c''] ! i)) =
       Some (join_nl (to_h1 (span_lines (split_nl long_doc) (?cs ! i))))"
    by blast
  have "fs ?st' (file_path ''oj'' ''b'') =
       Some (join_nl (to_h1 (span_lines (split_nl long_doc) (2, ''B'', 1, 3))))"
    using all by (elim allE [of _ 0]) simp
  moreover have "fs ?st' (file_path ''oj'' ''c'') =
       Some (join_nl (to_h1 (span_lines (split_nl long_doc) (2, ''C'', 3, 504))))"
    using all by (elim allE [of _ 1]) simp
  ultimately have f: "fs ?st' (file_path ''oj'' ''b'') = Some (join_nl [''# B'', ''b''])"
    "fs ?st' (file_path ''oj'' ''c'') = Some (join_nl (''# C'' # replicate 500 ''x''))"
    unfolding sp by simp_all
  from t h3 have ch: "chained ?cs" by blast
  from t h3 h4 have "join_nl (map (\<lambda>n. restore_h2 (the (fs ?st' (file_path ''oj'' n)))) [''b'', ''c'']) =
       join_nl (slice (split_nl long_doc) (sec_start (hd ?cs)) (sec_end (last ?cs)))"
    by blast
  then have r: "join_nl [restore_h2 (join_nl [''# B'', ''b'']),
            restore_h2 (join_nl (''# C'' # replicate 500 ''x''))] =
     join_nl (slice (split_nl long_doc) 1 504)"
    unfolding list.map f option.sel by (simp add: sec_start_def sec_end_def)
  show ?thesis using h1 h2 h3 h4 ch n f r by (intro conjI)
qed

section \<open>The Orchestrator: one document at a time\<close>

lemma below_file_path [simp]: "below name (file_path name n)"
  by (simp add: below_def file_path_def)

lemma not_below_original [simp]: "\<not> below name (original_path m)"
  by (simp add: below_def original_path_def base_dir_def)

lemma not_below_template [simp]: "\<not> below name ''config.templ.mjs''"
  by (simp add: below_def base_dir_def)

lemma rmtree_apply: "rmtree (base_dir name) f p = (if below name p then None else f p)"
  by (simp add: rmtree_def below_def)

lemma save_l1_fs [simp]: "save_l1 (st\<lparr>fs := g\<rparr>) = save_l1 st"
  by (simp add: save_l1_def split: option.splits)

lemma cfs_step_lift:
  assumes "\<forall>p. below name p \<longrightarrow> g p = fs st p"
  shows "cfs_step name lines (st\<lparr>fs := g\<rparr>) sec =
         (cfs_step name lines st sec)
           \<lparr>fs := (\<lambda>p. if below name p then fs (cfs_step name lines st sec) p else g p)\<rparr>"
proof -
  have a: "(\<lambda>p. if below name p then (if p = file_path name n then Some c else fs st p) else g p) =
      g(file_path name n \<mapsto> c)" for n c
    using assms by (auto simp: fun_eq_iff)
  have b: "(\<lambda>p. if below name p then fs st p else g p) = g"
    using assms by (auto simp: fun_eq_iff)
  obtain l t s e where sec: "sec = (l, t, s, e)" by (cases sec) auto
  obtain n u where hn: "heading_to_name t (used_names st) = (n, u)"
    by (cases "heading_to_name t (used_names st)")
  then have hn': "heading_to_name t (used_names (st\<lparr>fs := g\<rparr>)) = (n, u)" by simp
  consider (short) "l = 1" "int e - int s \<le> 500" | (long) "l = 1" "500 < int e - int s"
    | (orphan) "l = 2" "current_l1_name st = None"
    | (split) "l = 2" "current_l1_name st \<noteq> None" "current_l1_link st = None"
    | (kept) "l = 2" "current_l1_name st \<noteq> None" "current_l1_link st \<noteq> None"
    | (other) "l \<noteq> 1" "l \<noteq> 2"
    by linarith
  then show ?thesis
  proof cases
    case short
    show ?thesis
      unfolding sec short(1) cfs_step_l1_short [OF short(2) hn] cfs_step_l1_short [OF short(2) hn']
      by (simp add: a cong: if_cong)
  next
    case long
    show ?thesis
      unfolding sec long(1) cfs_step_l1_long [OF long(2)]
      by (simp add: b cong: if_cong)
  next
    case orphan
    have o': "current_l1_name (st\<lparr>fs := g\<rparr>) = None" using orphan(2) by simp
    show ?thesis
      unfolding sec orphan(1) cfs_step_l2_orphan [OF orphan(2) hn] cfs_step_l2_orphan [OF o' hn']
      by (simp add: a cong: if_cong)
  next
    case split
    have s': "current_l1_name (st\<lparr>fs := g\<rparr>) \<noteq> None" "current_l1_link (st\<lparr>fs := g\<rparr>) = None"
      using split(2,3) by simp_all
    show ?thesis
      unfolding sec split(1) cfs_step_l2_split [OF split(2,3) hn] cfs_step_l2_split [OF s' hn']
      by (simp add: a cong: if_cong)
  next
    case kept
    have k': "current_l1_name (st\<lparr>fs := g\<rparr>) \<noteq> None" "current_l1_link (st\<lparr>fs := g\<rparr>) \<noteq> None"
      using kept(2,3) by simp_all
    show ?thesis
      unfolding sec kept(1) cfs_step_l2_kept [OF kept(2,3)] cfs_step_l2_kept [OF k']
      by (simp add: b cong: if_cong)
  next
    case other
    show ?thesis
      unfolding sec cfs_step_other [OF other]
      by (simp add: b cong: if_cong)
  qed
qed

lemma cfs_fold_lift:
  assumes "\<forall>p. below name p \<longrightarrow> g p = fs st p"
  shows "foldl (cfs_step name lines) (st\<lparr>fs := g\<rparr>) secs =
         (foldl (cfs_step name lines) st secs)
           \<lparr>fs := (\<lambda>p. if below name p then fs (foldl (cfs_step name lines) st secs) p else g p)\<rparr>"
  using assms
proof (induction secs arbitrary: st g)
  case Nil
  then have "(\<lambda>p. if below name p then fs st p else g p) = g" by (auto simp: fun_eq_iff)
  then show ?case by (simp cong: if_cong)
next
  case (Cons sec secs)
  let ?g = "\<lambda>p. if below name p then fs (cfs_step name lines st sec) p else g p"
  have "\<forall>p. below name p \<longrightarrow> ?g p = fs (cfs_step name lines st sec) p" by simp
  from Cons.IH [OF this] show ?case
    by (simp add: cfs_step_lift [OF Cons.prems] fun_eq_iff cong: if_cong)
qed

text \<open>
  A round of the Section Splitter's loop raises exactly when the file it is about to write
  cannot be opened; otherwise it is the round of the loop in which no call raises.
\<close>

lemma cfs_step_io_eq:
  "cfs_step_io env name lines st sec =
     (case Option.bind (cfs_target name st sec) (write_error env) of
        Some e \<Rightarrow> Inl e
      | None \<Rightarrow> Inr (cfs_step name lines st sec))"
proof -
  obtain l t s e where sec: "sec = (l, t, s, e)" by (cases sec) auto
  show ?thesis
    unfolding sec
    by (auto simp: cfs_step_io_def cfs_step_def cfs_target_def write_text_def Let_def
        split: prod.splits option.splits)
qed

lemma cfs_loop_io_eq:
  "cfs_loop_io env name lines st secs =
     (case cfs_error env name lines st secs of
        Some e \<Rightarrow> Inl e
      | None \<Rightarrow> Inr (foldl (cfs_step name lines) st secs))"
  by (induction secs arbitrary: st) (auto simp: cfs_step_io_eq split: option.splits)

lemma cfs_target_fs [simp]: "cfs_target name (st\<lparr>fs := g\<rparr>) sec = cfs_target name st sec"
  by (simp add: cfs_target_def split: prod.splits)

lemma cfs_target_more [simp]:
  "cfs_target name (st\<lparr>fs := g\<rparr>) = cfs_target name st"
  by (rule ext) simp

lemma cfs_target_below: "cfs_target name st sec = Some p \<Longrightarrow> below name p"
  by (auto simp: cfs_target_def split: prod.splits if_splits)

lemma cfs_error_lift:
  assumes "\<forall>p. below name p \<longrightarrow> g p = fs st p"
  shows "cfs_error env name lines (st\<lparr>fs := g\<rparr>) secs = cfs_error env name lines st secs"
  using assms
proof (induction secs arbitrary: st g)
  case Nil
  show ?case by simp
next
  case (Cons sec secs)
  let ?g = "\<lambda>p. if below name p then fs (cfs_step name lines st sec) p else g p"
  have "\<forall>p. below name p \<longrightarrow> ?g p = fs (cfs_step name lines st sec) p" by simp
  from Cons.IH [OF this] show ?case
    by (simp add: cfs_step_lift [OF Cons.prems] cong: if_cong option.case_cong)
qed

lemma cfs_error_below:
  "cfs_error env name lines st secs = Some e \<Longrightarrow> \<exists>p. below name p \<and> write_error env p = Some e"
proof (induction secs arbitrary: st)
  case Nil
  then show ?case by simp
next
  case (Cons sec secs)
  then show ?case
    by (auto simp: bind_eq_Some_conv dest: cfs_target_below split: option.splits)
qed

lemma cfs_error_None:
  assumes "\<forall>p. below name p \<longrightarrow> write_error env p = None"
  shows "cfs_error env name lines st secs = None"
proof (induction secs arbitrary: st)
  case Nil
  show ?case by simp
next
  case (Cons sec secs)
  have "Option.bind (cfs_target name st sec) (write_error env) = None"
    using assms cfs_target_below [of name st sec]
    by (cases "cfs_target name st sec") auto
  then show ?case using Cons by simp
qed

lemma create_file_structure_io_eq:
  assumes "f (original_path name) = Some content"
  shows "create_file_structure_io env name secs f =
     (case read_error env (original_path name) of
        Some e \<Rightarrow> Inl e
      | None \<Rightarrow>
          (case rmtree_error env (base_dir name) of
             Some e \<Rightarrow> Inl e
           | None \<Rightarrow>
               (case mkdir_error env (base_dir name) of
                  Some e \<Rightarrow> Inl e
                | None \<Rightarrow>
                    (case cfs_error env name (split_nl content) (cfs_init Map.empty) secs of
                       Some e \<Rightarrow> Inl e
                     | None \<Rightarrow>
                         Inr (save_l1 (foldl (cfs_step name (split_nl content)) (cfs_init Map.empty) secs),
                              (\<lambda>p. if below name p
                                    then fs (foldl (cfs_step name (split_nl content))
                                               (cfs_init Map.empty) secs) p
                                    else f p))))))"
proof -
  let ?lines = "split_nl content"
  let ?run = "foldl (cfs_step name ?lines) (cfs_init Map.empty) secs"
  let ?f1 = "rmtree (base_dir name) f"
  have i: "cfs_init ?f1 = (cfs_init Map.empty)\<lparr>fs := ?f1\<rparr>"
    by (simp add: cfs_init_def)
  have b: "\<forall>p. below name p \<longrightarrow> ?f1 p = fs (cfs_init Map.empty) p"
    by (simp add: rmtree_apply cfs_init_def)
  have e: "cfs_error env name ?lines (cfs_init ?f1) secs =
           cfs_error env name ?lines (cfs_init Map.empty) secs"
    unfolding i using b by (rule cfs_error_lift)
  have "foldl (cfs_step name ?lines) (cfs_init ?f1) secs =
        ?run\<lparr>fs := (\<lambda>p. if below name p then fs ?run p else ?f1 p)\<rparr>"
    unfolding i using b by (rule cfs_fold_lift)
  moreover have "(\<lambda>p. if below name p then fs ?run p else ?f1 p) =
        (\<lambda>p. if below name p then fs ?run p else f p)"
    by (auto simp: fun_eq_iff rmtree_apply)
  ultimately have r: "foldl (cfs_step name ?lines) (cfs_init ?f1) secs =
        ?run\<lparr>fs := (\<lambda>p. if below name p then fs ?run p else f p)\<rparr>"
    by simp
  show ?thesis
    using assms
    by (simp add: create_file_structure_io_def read_text_def remove_tree_def make_dir_def
        cfs_loop_io_eq e r split: option.splits)
qed

text \<open>
  When no call raises, \<open>create_file_structure_io\<close> is \<open>create_file_structure\<close>; and whatever
  it returns, \<open>create_file_structure\<close> returns too.
\<close>

lemma create_file_structure_io_no_errors:
  "create_file_structure_io no_errors name secs f = create_file_structure name secs f"
proof (cases "f (original_path name)")
  case None
  then show ?thesis by (simp add: create_file_structure_io_def create_file_structure_def)
next
  case (Some content)
  have "cfs_error no_errors name lines st secs = None" for lines st
    by (rule cfs_error_None) (simp add: no_errors_def)
  then show ?thesis
    using Some
    by (simp add: create_file_structure_io_def create_file_structure_def read_text_def
        remove_tree_def make_dir_def cfs_loop_io_eq no_errors_def Let_def)
qed

lemma create_file_structure_io_returns:
  assumes "create_file_structure_io env name secs f = Inr r"
  shows "create_file_structure name secs f = Inr r"
proof (cases "f (original_path name)")
  case None
  then show ?thesis using assms by (simp add: create_file_structure_io_def)
next
  case (Some content)
  then show ?thesis
    using assms
    by (auto simp: create_file_structure_io_def create_file_structure_def read_text_def
        remove_tree_def make_dir_def cfs_loop_io_eq Let_def split: option.splits)
qed

lemma split_step_invalid:
  "\<not> valid_name name \<Longrightarrow>
   split_step env md st name = Inr (st\<lparr>diagnostics := diagnostics st @ [InvalidName name]\<rparr>)"
  by (simp add: split_step_def)

lemma split_step_missing:
  "valid_name name \<Longrightarrow> files st (original_path name) = None \<Longrightarrow>
   split_step env md st name = Inr (st\<lparr>diagnostics := diagnostics st @ [MissingSource name]\<rparr>)"
  by (simp add: split_step_def)

lemma split_step_processable:
  assumes "valid_name name" "files st (original_path name) = Some content"
  shows "split_step env md st name =
     (case doc_error env md name content of
        Some e \<Rightarrow> Inl e
      | None \<Rightarrow>
          Inr (st\<lparr>all_structures :=
                    AList.update name (save_l1 (doc_run md name content)) (all_structures st),
                  files := (\<lambda>p. if below name p then doc_files md name content p
                                 else files st p)\<rparr>))"
proof -
  let ?f1 = "rmtree (base_dir name) (files st)"
  have o: "?f1 (original_path name) = Some content"
    using assms(2) by (simp add: rmtree_apply)
  show ?thesis
    using assms
    by (simp add: split_step_def read_text_def remove_tree_def write_text_def Let_def
        create_file_structure_io_eq [where f = ?f1 and name = name and content = content, OF o]
        doc_error_def doc_run_def doc_files_def rmtree_apply fun_eq_iff
        split: option.splits)
qed

lemma split_step_cases:
  obtains (skipped) d where "\<not> processable (files st) name"
      "split_step env md st name = Inr (st\<lparr>diagnostics := diagnostics st @ [d]\<rparr>)"
      "skip_diags (files st) [name] = [d]"
    | (processed) content where "processable (files st) name"
      "files st (original_path name) = Some content"
      "doc_error env md name content = None"
      "split_step env md st name =
         Inr (st\<lparr>all_structures :=
                   AList.update name (save_l1 (doc_run md name content)) (all_structures st),
                 files := (\<lambda>p. if below name p then doc_files md name content p else files st p)\<rparr>)"
      "skip_diags (files st) [name] = []"
    | (failed) content e where "processable (files st) name"
      "files st (original_path name) = Some content"
      "doc_error env md name content = Some e"
      "split_step env md st name = Inl e"
proof (cases "valid_name name")
  case False
  then show ?thesis
    using skipped [of "InvalidName name"] split_step_invalid [of name env md st]
    by (simp add: processable_def skip_diags_def)
next
  case True
  show ?thesis
  proof (cases "files st (original_path name)")
    case None
    then show ?thesis
      using True skipped [of "MissingSource name"] split_step_missing [of name st env md]
      by (simp add: processable_def skip_diags_def)
  next
    case (Some content)
    note p = split_step_processable [OF True Some, of env md]
    show ?thesis
    proof (cases "doc_error env md name content")
      case None
      then show ?thesis
        using True Some p processed [of content] by (simp add: processable_def skip_diags_def)
    next
      case (Some e)
      then show ?thesis
        using True \<open>files st (original_path name) = Some content\<close> p failed [of content e]
        by (simp add: processable_def)
    qed
  qed
qed

lemma processable_cong:
  "(\<And>m. f (original_path m) = g (original_path m)) \<Longrightarrow> processable f = processable g"
  by (simp add: processable_def fun_eq_iff)

lemma skip_diags_cong:
  assumes "\<And>m. f (original_path m) = g (original_path m)"
  shows "skip_diags f = skip_diags g"
  by (simp add: skip_diags_def fun_eq_iff assms cong: if_cong)

lemma skip_diags_Cons: "skip_diags f (n # ns) = skip_diags f [n] @ skip_diags f ns"
  by (simp add: skip_diags_def)

lemma split_step_frame:
  assumes "split_step env md st name = Inr st'" "processable (files st) name \<longrightarrow> \<not> below name p"
  shows "files st' p = files st p"
  using assms
  by (cases rule: split_step_cases [where st = st and name = name and md = md and env = env]) auto

lemma split_step_originals:
  assumes "split_step env md st name = Inr st'"
  shows "files st' (original_path m) = files st (original_path m)"
  using assms by (rule split_step_frame) simp

lemma split_loop_frame:
  assumes "split_loop env md st names = Inr st'"
    "\<forall>n\<in>set names. processable (files st) n \<longrightarrow> \<not> below n p"
  shows "files st' p = files st p"
  using assms
proof (induction names arbitrary: st)
  case Nil
  then show ?case by simp
next
  case (Cons n ns)
  from Cons.prems(1) obtain st1 where s1: "split_step env md st n = Inr st1"
    and l: "split_loop env md st1 ns = Inr st'"
    by (auto split: sum.splits)
  have "processable (files st1) = processable (files st)"
    by (rule processable_cong) (rule split_step_originals [OF s1])
  then have "files st' p = files st1 p" using Cons.IH [OF l] Cons.prems(2) by simp
  moreover have "files st1 p = files st p"
    using s1 Cons.prems(2) by (intro split_step_frame [of env md st n st1 p]) simp_all
  ultimately show ?case by simp
qed

lemma split_loop_originals:
  assumes "split_loop env md st names = Inr st'"
  shows "files st' (original_path m) = files st (original_path m)"
  using assms by (rule split_loop_frame) simp

lemma split_loop_append:
  "split_loop env md st (xs @ ys) =
     (case split_loop env md st xs of
        Inl e \<Rightarrow> Inl e
      | Inr s \<Rightarrow> split_loop env md s ys)"
  by (induction xs arbitrary: st) (auto split: sum.splits)

lemma split_loop_failure:
  assumes "split_loop env md st names = Inl e"
  shows "\<exists>pre n post s. names = pre @ n # post \<and> split_loop env md st pre = Inr s \<and>
           split_step env md s n = Inl e"
  using assms
proof (induction names arbitrary: st)
  case Nil
  then show ?case by simp
next
  case (Cons n ns)
  show ?case
  proof (cases "split_step env md st n")
    case (Inl e')
    then have "e' = e" using Cons.prems by simp
    then show ?thesis using Inl
      by (intro exI [of _ "[]"] exI [of _ n] exI [of _ ns] exI [of _ st]) simp
  next
    case (Inr s1)
    then have "split_loop env md s1 ns = Inl e" using Cons.prems by simp
    from Cons.IH [OF this] obtain pre m post s where
      "ns = pre @ m # post" "split_loop env md s1 pre = Inr s" "split_step env md s m = Inl e"
      by blast
    then show ?thesis using Inr
      by (intro exI [of _ "n # pre"] exI [of _ m] exI [of _ post] exI [of _ s]) simp
  qed
qed

text \<open>
  The output directories of two documents with valid names have no path in common: a
  valid name holds no \<open>/\<close>.
\<close>

lemma valid_name_no_slash:
  assumes "valid_name m"
  shows "CHR ''/'' \<notin> set m"
proof -
  have n: "\<not> name_char (CHR ''/'')" by code_simp
  have t: "CHR ''/'' \<notin> set (takeWhile name_char m)"
    using n set_takeWhileD [of "CHR ''/''" name_char m] by blast
  have d: "CHR ''/'' \<notin> set (dropWhile name_char m)"
    using assms unfolding valid_name_def by (elim conjE disjE) (simp_all del: dropWhile_eq_Nil_conv)
  have "set m = set (takeWhile name_char m) \<union> set (dropWhile name_char m)"
    using takeWhile_dropWhile_id [of name_char m] by (metis set_append)
  then show ?thesis using t d by simp
qed

lemma below_disjoint:
  assumes "valid_name n" "valid_name m" "below n p" "below m p"
  shows "n = m"
proof -
  from assms(3,4) have a: "prefix (''docs/'' @ (n @ ''/'')) p" and b: "prefix (''docs/'' @ (m @ ''/'')) p"
    by (simp_all add: below_def base_dir_def)
  have *: "x = y" if "prefix (x @ ''/'') (y @ ''/'')" "CHR ''/'' \<notin> set y" for x y :: string
  proof -
    from that(1) obtain r where r: "y @ ''/'' = x @ ''/'' @ r" by (auto simp: prefix_def)
    show ?thesis
    proof (cases r rule: rev_cases)
      case Nil
      then show ?thesis using r by simp
    next
      case (snoc r' c)
      then have "y @ [CHR ''/''] = (x @ ''/'' @ r') @ [c]" using r by simp
      then have "y = x @ ''/'' @ r'" by (simp only: append1_eq_conv)
      then show ?thesis using that(2) by simp
    qed
  qed
  from a b have "prefix (''docs/'' @ (n @ ''/'')) (''docs/'' @ (m @ ''/'')) \<or>
      prefix (''docs/'' @ (m @ ''/'')) (''docs/'' @ (n @ ''/''))"
    by (rule prefix_same_cases)
  then have "prefix (n @ ''/'') (m @ ''/'') \<or> prefix (m @ ''/'') (n @ ''/'')"
    by (simp only: same_prefix_prefix)
  then show ?thesis
    using * [of n m] * [of m n] valid_name_no_slash [OF assms(1)] valid_name_no_slash [OF assms(2)]
    by auto
qed

text \<open>
  What the loop leaves when it comes to its end: every document that is not skipped has
  its structure and its files, computed from its source alone; the structures of the
  other names and the files outside the output directories are as they were; the messages
  are those of the skipped names.
\<close>

lemma split_loop_outputs:
  assumes "split_loop env md s names = Inr t"
  shows "(\<forall>n\<in>set names. \<forall>c. valid_name n \<and> files s (original_path n) = Some c \<longrightarrow>
            map_of (all_structures t) n = Some (save_l1 (doc_run md n c)) \<and>
            (\<forall>p. below n p \<longrightarrow> files t p = doc_files md n c p)) \<and>
         (\<forall>m. \<not> (m \<in> set names \<and> processable (files s) m) \<longrightarrow>
            map_of (all_structures t) m = map_of (all_structures s) m) \<and>
         diagnostics t = diagnostics s @ skip_diags (files s) names"
  using assms
proof (induction names arbitrary: s)
  case Nil
  then show ?case by (simp add: skip_diags_def)
next
  case (Cons n ns)
  from Cons.prems obtain s1 where s1: "split_step env md s n = Inr s1"
    and l: "split_loop env md s1 ns = Inr t"
    by (auto split: sum.splits)
  have o: "files s1 (original_path m) = files s (original_path m)" for m
    by (rule split_step_originals [OF s1])
  have pc: "processable (files s1) = processable (files s)"
    by (rule processable_cong) (rule o)
  have sc: "skip_diags (files s1) = skip_diags (files s)"
    by (rule skip_diags_cong) (rule o)
  note ih = Cons.IH [OF l, unfolded o pc sc]
  from ih have ih1: "map_of (all_structures t) k = Some (save_l1 (doc_run md k c)) \<and>
            (\<forall>p. below k p \<longrightarrow> files t p = doc_files md k c p)"
    if "k \<in> set ns" "valid_name k" "files s (original_path k) = Some c" for k c
    using that by blast
  from ih have ih2: "map_of (all_structures t) m = map_of (all_structures s1) m"
    if "\<not> (m \<in> set ns \<and> processable (files s) m)" for m
    using that by blast
  from ih have ih3: "diagnostics t = diagnostics s1 @ skip_diags (files s) ns" by blast
  have fr: "files t p = files s1 p"
    if "\<forall>k\<in>set ns. processable (files s) k \<longrightarrow> \<not> below k p" for p
    using split_loop_frame [OF l, of p] that unfolding pc by simp
  show ?case
  proof (cases rule: split_step_cases [where st = s and name = n and md = md and env = env])
    case (skipped d)
    then have e: "s1 = s\<lparr>diagnostics := diagnostics s @ [d]\<rparr>" using s1 by simp
    have "map_of (all_structures t) k = Some (save_l1 (doc_run md k c)) \<and>
            (\<forall>p. below k p \<longrightarrow> files t p = doc_files md k c p)"
      if "k \<in> set (n # ns)" "valid_name k" "files s (original_path k) = Some c" for k c
    proof -
      have "k \<noteq> n" using that(2,3) skipped(1) by (auto simp: processable_def)
      then show ?thesis using that ih1 by simp
    qed
    moreover have "map_of (all_structures t) m = map_of (all_structures s) m"
      if "\<not> (m \<in> set (n # ns) \<and> processable (files s) m)" for m
      using ih2 [of m] that by (auto simp: e)
    moreover have "diagnostics t = diagnostics s @ skip_diags (files s) (n # ns)"
      using ih3 skipped(3) by (simp add: e skip_diags_Cons [of _ n ns])
    ultimately show ?thesis by blast
  next
    case (processed content)
    then have e: "s1 = s\<lparr>all_structures :=
                   AList.update n (save_l1 (doc_run md n content)) (all_structures s),
                 files := (\<lambda>p. if below n p then doc_files md n content p else files s p)\<rparr>"
      using s1 by simp
    have vn: "valid_name n" using processed(1) by (simp add: processable_def)
    have "map_of (all_structures t) k = Some (save_l1 (doc_run md k c)) \<and>
            (\<forall>p. below k p \<longrightarrow> files t p = doc_files md k c p)"
      if k: "k \<in> set (n # ns)" "valid_name k" "files s (original_path k) = Some c" for k c
    proof (cases "k \<in> set ns")
      case True
      then show ?thesis using k ih1 by simp
    next
      case False
      then have kn: "k = n" and c: "c = content" using k processed(2) by auto
      have "map_of (all_structures t) n = map_of (all_structures s1) n"
        using False kn by (intro ih2) simp
      then have a: "map_of (all_structures t) n = Some (save_l1 (doc_run md n content))"
        by (simp add: e update_conv)
      have "files t p = doc_files md n content p" if b: "below n p" for p
      proof -
        have "\<forall>j\<in>set ns. processable (files s) j \<longrightarrow> \<not> below j p"
          using below_disjoint [OF _ vn _ b] False kn by (auto simp: processable_def)
        from fr [OF this] show ?thesis using b by (simp add: e)
      qed
      then show ?thesis using a kn c by simp
    qed
    moreover have "map_of (all_structures t) m = map_of (all_structures s) m"
      if m: "\<not> (m \<in> set (n # ns) \<and> processable (files s) m)" for m
    proof -
      have "m \<noteq> n" using m processed(1) by auto
      then show ?thesis using ih2 [of m] m by (auto simp: e update_conv)
    qed
    moreover have "diagnostics t = diagnostics s @ skip_diags (files s) (n # ns)"
      using ih3 processed(5) by (simp add: e skip_diags_Cons [of _ n ns])
    ultimately show ?thesis by blast
  next
    case (failed content e)
    then show ?thesis using s1 by simp
  qed
qed

lemma split_loop_returns:
  assumes "\<forall>n\<in>set names. \<forall>c. valid_name n \<and> files s (original_path n) = Some c \<longrightarrow>
             doc_error env md n c = None"
  shows "\<exists>t. split_loop env md s names = Inr t"
  using assms
proof (induction names arbitrary: s)
  case Nil
  show ?case by simp
next
  case (Cons n ns)
  show ?case
  proof (cases rule: split_step_cases [where st = s and name = n and md = md and env = env])
    case (skipped d)
    then show ?thesis using Cons.IH [of "s\<lparr>diagnostics := diagnostics s @ [d]\<rparr>"] Cons.prems
      by simp
  next
    case (processed content)
    let ?s1 = "s\<lparr>all_structures :=
                   AList.update n (save_l1 (doc_run md n content)) (all_structures s),
                 files := (\<lambda>p. if below n p then doc_files md n content p else files s p)\<rparr>"
    have "\<forall>k\<in>set ns. \<forall>c. valid_name k \<and> files ?s1 (original_path k) = Some c \<longrightarrow>
             doc_error env md k c = None"
      using Cons.prems by simp
    from Cons.IH [OF this] show ?thesis using processed(4) by simp
  next
    case (failed content e)
    then show ?thesis using Cons.prems by (auto simp: processable_def)
  qed
qed

lemma doc_error_None:
  assumes "read_error env (original_path n) = None" "rmtree_error env (base_dir n) = None"
    "mkdir_error env (base_dir n) = None" "\<forall>p. below n p \<longrightarrow> write_error env p = None"
  shows "doc_error env md n c = None"
  using assms cfs_error_None [OF assms(4)] by (simp add: doc_error_def)

lemma doc_error_Some:
  assumes "doc_error env md n c = Some e"
  shows "read_error env (original_path n) = Some e \<or> rmtree_error env (base_dir n) = Some e \<or>
         mkdir_error env (base_dir n) = Some e \<or> (\<exists>p. below n p \<and> write_error env p = Some e)"
proof -
  from assms consider "read_error env (original_path n) = Some e"
    | "rmtree_error env (base_dir n) = Some e" | "mkdir_error env (base_dir n) = Some e"
    | "cfs_error env n (split_nl c) (cfs_init Map.empty) (parse_markdown (md c) c) = Some e"
    | "write_error env (file_path n ''index'') = Some e"
    by (auto simp: doc_error_def split: option.splits)
  then show ?thesis
  proof cases
    case 4
    from cfs_error_below [OF this] show ?thesis by blast
  next
    case 5
    then show ?thesis using below_file_path [of n "''index''"] by blast
  qed auto
qed

lemma update_config_file_eq:
  "update_config_file env cfg f =
     (case f ''config.templ.mjs'' of
        None \<Rightarrow> Inl (FileNotFoundError ''config.templ.mjs'')
      | Some template \<Rightarrow>
          (case read_error env ''config.templ.mjs'' of
             Some e \<Rightarrow> Inl e
           | None \<Rightarrow>
               (case write_error env config_path of
                  Some e \<Rightarrow> Inl e
                | None \<Rightarrow>
                    Inr (f(config_path \<mapsto> str_replace ''// template: sidebar'' cfg template)))))"
  by (simp add: update_config_file_def read_text_def write_text_def config_path_def
      split: option.splits)

lemma split_eq:
  "split env md f0 names =
     (case split_loop env md \<lparr>all_structures = [], files = f0, diagnostics = []\<rparr> names of
        Inl e \<Rightarrow> Inl e
      | Inr st \<Rightarrow>
          if all_structures st \<noteq> [] then
            (case update_config_file env (generate_sidebar_config (all_structures st)) (files st) of
               Inl e \<Rightarrow> Inl e
             | Inr f \<Rightarrow> Inr (f, Some (generate_sidebar_config (all_structures st)), diagnostics st))
          else Inr (files st, None, diagnostics st))"
  unfolding split_def Let_def by (rule refl)

lemma split_failure:
  assumes "split env md f0 names = Inl e"
  shows "split_loop env md \<lparr>all_structures = [], files = f0, diagnostics = []\<rparr> names = Inl e \<or>
         f0 ''config.templ.mjs'' = None \<or> read_error env ''config.templ.mjs'' = Some e \<or>
         write_error env config_path = Some e"
proof (cases "split_loop env md \<lparr>all_structures = [], files = f0, diagnostics = []\<rparr> names")
  case (Inl e')
  then show ?thesis using assms by (simp add: split_eq)
next
  case (Inr t)
  have "files t ''config.templ.mjs'' = f0 ''config.templ.mjs''"
    using split_loop_frame [OF Inr, of "''config.templ.mjs''"] by simp
  then show ?thesis using assms Inr
    by (auto simp: split_eq update_config_file_eq split: if_splits option.splits)
qed

lemma split_returns:
  assumes "\<forall>n\<in>set names. \<forall>c. valid_name n \<and> f0 (original_path n) = Some c \<longrightarrow>
             doc_error env md n c = None"
    "f0 ''config.templ.mjs'' \<noteq> None" "read_error env ''config.templ.mjs'' = None"
    "write_error env config_path = None"
  shows "\<exists>r. split env md f0 names = Inr r"
proof (cases "split env md f0 names")
  case (Inl e)
  let ?s0 = "\<lparr>all_structures = [], files = f0, diagnostics = []\<rparr>"
  from split_loop_returns [of names ?s0 env md] assms(1)
  obtain t where "split_loop env md ?s0 names = Inr t" by auto
  then show ?thesis using split_failure [OF Inl] assms(2-4) by auto
next
  case (Inr r)
  then show ?thesis by blast
qed

text \<open>
  The names that are skipped leave no trace but their messages: the loop ends with the
  files and structures of the loop over the other names alone.
\<close>

lemma split_loop_skips:
  assumes "same_out s s'" "split_loop env md s names = Inr t"
  shows "\<exists>t'. split_loop env md s' (filter (processable (files s)) names) = Inr t' \<and>
           same_out t t' \<and> diagnostics t' = diagnostics s'"
  using assms
proof (induction names arbitrary: s s')
  case Nil
  then show ?case by simp
next
  case (Cons n ns)
  from Cons.prems(1) have f: "files s' = files s" and a: "all_structures s' = all_structures s"
    by (simp_all add: same_out_def)
  from Cons.prems(2) obtain s1 where s1: "split_step env md s n = Inr s1"
    and l: "split_loop env md s1 ns = Inr t"
    by (auto split: sum.splits)
  have pc: "processable (files s1) = processable (files s)"
    by (rule processable_cong) (rule split_step_originals [OF s1])
  show ?case
  proof (cases rule: split_step_cases [where st = s and name = n and md = md and env = env])
    case (skipped d)
    then have "same_out s1 s'" using s1 Cons.prems(1) by (auto simp: same_out_def)
    from Cons.IH [OF this l] show ?thesis using skipped(1) unfolding pc by simp
  next
    case (processed content)
    let ?u = "\<lambda>x. x\<lparr>all_structures :=
                   AList.update n (save_l1 (doc_run md n content)) (all_structures s),
                 files := (\<lambda>p. if below n p then doc_files md n content p else files s p)\<rparr>"
    have e: "s1 = ?u s" using processed(4) s1 by simp
    have s1': "split_step env md s' n = Inr (?u s')"
      using split_step_processable [of n s' content env md] processed(1,2,3)
      by (simp add: processable_def f a cong: if_cong)
    have "same_out s1 (?u s')" by (simp add: same_out_def e)
    from Cons.IH [OF this l] show ?thesis using processed(1) s1' unfolding pc by simp
  next
    case (failed content e)
    then show ?thesis using s1 by simp
  qed
qed

text \<open>
  C8, as stated, fails: a condition of one document can end the whole run. Here the bytes
  of \<open>original/oj.md\<close> are not UTF-8. Both names pass the validation and both sources
  exist; reading the first source raises \<open>UnicodeDecodeError\<close>, which nothing catches, so
  the loop and the run end with that error and the document \<open>cf\<close> is never processed.
\<close>

theorem undecodable_source_ends_run_cex:
  "valid_name ''oj'' \<and> valid_name ''cf'' \<and>
   two_sources (original_path ''oj'') = Some ''# A'' \<and>
   two_sources (original_path ''cf'') = Some ''# A'' \<and>
   split_loop undecodable_oj heading_A
     \<lparr>all_structures = [], files = two_sources, diagnostics = []\<rparr> [''oj'', ''cf''] =
     Inl (UnicodeDecodeError ''original/oj.md'') \<and>
   split undecodable_oj heading_A two_sources [''oj'', ''cf''] =
     Inl (UnicodeDecodeError ''original/oj.md'')"
proof -
  let ?s0 = "\<lparr>all_structures = [], files = two_sources, diagnostics = []\<rparr>"
  have v: "valid_name ''oj''" "valid_name ''cf''" by code_simp+
  have o: "two_sources (original_path ''oj'') = Some ''# A''"
    "two_sources (original_path ''cf'') = Some ''# A''"
    by (simp_all add: two_sources_def original_path_def)
  have r: "read_error undecodable_oj (original_path ''oj'') =
           Some (UnicodeDecodeError ''original/oj.md'')"
    by (simp add: undecodable_oj_def original_path_def)
  have "split_step undecodable_oj heading_A ?s0 ''oj'' =
        Inl (UnicodeDecodeError ''original/oj.md'')"
    using split_step_processable [of "''oj''" ?s0 "''# A''" undecodable_oj heading_A] v(1) o(1) r
    by (simp add: doc_error_def)
  then have l: "split_loop undecodable_oj heading_A ?s0 [''oj'', ''cf''] =
        Inl (UnicodeDecodeError ''original/oj.md'')"
    by simp
  then have "split undecodable_oj heading_A two_sources [''oj'', ''cf''] =
        Inl (UnicodeDecodeError ''original/oj.md'')"
    by (simp add: split_eq)
  then show ?thesis using v o l by blast
qed

text \<open>
  C8, amended. A name that fails the validation is skipped with the message for an invalid
  name, a valid name without source file is skipped with the message for a missing source;
  in both cases the round changes neither the files nor the structures. When no call into
  the file system raises for the documents that are not skipped (reading the source,
  emptying and creating the output directory, opening a file below it), the loop comes to
  its end: it leaves the files and structures of the loop over the names that are not
  skipped, every such document has the structure and the files computed from its source,
  the messages are those of the skipped names in order, and nothing else changes. A call
  that raises while a document is processed ends the run there, whatever names follow:
  a source that cannot be read does so, and so does the first of the calls made for the
  document that raises (\<open>doc_error\<close>); a round only fails for a document that is not
  skipped, on one of these calls. The run as a whole fails only in the loop or on the
  template or the file of the configuration.
\<close>

theorem skipped_names_continue_errors_end_run:
  "(\<not> valid_name n \<longrightarrow>
      split_step env md st n = Inr (st\<lparr>diagnostics := diagnostics st @ [InvalidName n]\<rparr>)) \<and>
   (valid_name n \<and> files st (original_path n) = None \<longrightarrow>
      split_step env md st n = Inr (st\<lparr>diagnostics := diagnostics st @ [MissingSource n]\<rparr>)) \<and>
   ((\<forall>k\<in>set names. processable (files st) k \<longrightarrow>
        read_error env (original_path k) = None \<and> rmtree_error env (base_dir k) = None \<and>
        mkdir_error env (base_dir k) = None \<and> (\<forall>p. below k p \<longrightarrow> write_error env p = None)) \<longrightarrow>
    (\<exists>t t'. split_loop env md st names = Inr t \<and>
       split_loop env md st (filter (processable (files st)) names) = Inr t' \<and>
       files t = files t' \<and> all_structures t = all_structures t' \<and>
       diagnostics t = diagnostics st @ skip_diags (files st) names \<and>
       (\<forall>k\<in>set names. \<forall>c. valid_name k \<and> files st (original_path k) = Some c \<longrightarrow>
          map_of (all_structures t) k = Some (save_l1 (doc_run md k c)) \<and>
          (\<forall>p. below k p \<longrightarrow> files t p = doc_files md k c p)) \<and>
       (\<forall>m. \<not> (m \<in> set names \<and> processable (files st) m) \<longrightarrow>
          map_of (all_structures t) m = map_of (all_structures st) m) \<and>
       (\<forall>p. (\<forall>k\<in>set names. processable (files st) k \<longrightarrow> \<not> below k p) \<longrightarrow>
          files t p = files st p))) \<and>
   (processable (files st) n \<and> read_error env (original_path n) = Some e \<longrightarrow>
      split_step env md st n = Inl e) \<and>
   (valid_name n \<and> files st (original_path n) = Some c \<and> doc_error env md n c = Some e \<longrightarrow>
      split_step env md st n = Inl e) \<and>
   (split_step env md st n = Inl e \<longrightarrow>
      processable (files st) n \<and>
      (read_error env (original_path n) = Some e \<or> rmtree_error env (base_dir n) = Some e \<or>
       mkdir_error env (base_dir n) = Some e \<or> (\<exists>p. below n p \<and> write_error env p = Some e))) \<and>
   (split_loop env md st pre = Inr s \<and> split_step env md s n = Inl e \<longrightarrow>
      split_loop env md st (pre @ n # post) = Inl e) \<and>
   (split_loop env md \<lparr>all_structures = [], files = f0, diagnostics = []\<rparr> names = Inl e \<longrightarrow>
      split env md f0 names = Inl e) \<and>
   (split env md f0 names = Inl e \<longrightarrow>
      (\<exists>pre k post s. names = pre @ k # post \<and>
         split_loop env md \<lparr>all_structures = [], files = f0, diagnostics = []\<rparr> pre = Inr s \<and>
         split_step env md s k = Inl e) \<or>
      f0 ''config.templ.mjs'' = None \<or> read_error env ''config.templ.mjs'' = Some e \<or>
      write_error env config_path = Some e)"
proof -
  have c3: "\<exists>t t'. split_loop env md st names = Inr t \<and>
       split_loop env md st (filter (processable (files st)) names) = Inr t' \<and>
       files t = files t' \<and> all_structures t = all_structures t' \<and>
       diagnostics t = diagnostics st @ skip_diags (files st) names \<and>
       (\<forall>k\<in>set names. \<forall>c. valid_name k \<and> files st (original_path k) = Some c \<longrightarrow>
          map_of (all_structures t) k = Some (save_l1 (doc_run md k c)) \<and>
          (\<forall>p. below k p \<longrightarrow> files t p = doc_files md k c p)) \<and>
       (\<forall>m. \<not> (m \<in> set names \<and> processable (files st) m) \<longrightarrow>
          map_of (all_structures t) m = map_of (all_structures st) m) \<and>
       (\<forall>p. (\<forall>k\<in>set names. processable (files st) k \<longrightarrow> \<not> below k p) \<longrightarrow>
          files t p = files st p)"
    if h: "\<forall>k\<in>set names. processable (files st) k \<longrightarrow>
        read_error env (original_path k) = None \<and> rmtree_error env (base_dir k) = None \<and>
        mkdir_error env (base_dir k) = None \<and> (\<forall>p. below k p \<longrightarrow> write_error env p = None)"
  proof -
    have "doc_error env md k c = None"
      if "k \<in> set names" "valid_name k" "files st (original_path k) = Some c" for k c
    proof -
      have "processable (files st) k" using that by (simp add: processable_def)
      with h that(1) show ?thesis by (intro doc_error_None) blast+
    qed
    then have "\<exists>t. split_loop env md st names = Inr t"
      by (intro split_loop_returns) blast
    then obtain t where t: "split_loop env md st names = Inr t" ..
    have "same_out st st" by (simp add: same_out_def)
    from split_loop_skips [OF this t] obtain t' where
      t': "split_loop env md st (filter (processable (files st)) names) = Inr t'"
      "files t = files t'" "all_structures t = all_structures t'"
      by (auto simp: same_out_def)
    have fr: "\<forall>p. (\<forall>k\<in>set names. processable (files st) k \<longrightarrow> \<not> below k p) \<longrightarrow>
          files t p = files st p"
      using split_loop_frame [OF t] by blast
    show ?thesis
      using t t' fr split_loop_outputs [OF t] by blast
  qed
  have c4: "split_step env md st n = Inl e"
    if "processable (files st) n" "read_error env (original_path n) = Some e"
  proof -
    from that(1) obtain c where "valid_name n" "files st (original_path n) = Some c"
      by (auto simp: processable_def)
    from split_step_processable [OF this, of env md] that(2) show ?thesis
      by (simp add: doc_error_def)
  qed
  have c4': "split_step env md st n = Inl e"
    if "valid_name n" "files st (original_path n) = Some c" "doc_error env md n c = Some e"
    using split_step_processable [OF that(1,2), of env md] that(3) by simp
  have c5: "processable (files st) n \<and>
      (read_error env (original_path n) = Some e \<or> rmtree_error env (base_dir n) = Some e \<or>
       mkdir_error env (base_dir n) = Some e \<or> (\<exists>p. below n p \<and> write_error env p = Some e))"
    if "split_step env md st n = Inl e"
    using that
    by (cases rule: split_step_cases [where st = st and name = n and md = md and env = env])
      (use doc_error_Some in auto)
  have c6: "split_loop env md st (pre @ n # post) = Inl e"
    if "split_loop env md st pre = Inr s" "split_step env md s n = Inl e"
    using that by (simp add: split_loop_append)
  have c7: "split env md f0 names = Inl e"
    if "split_loop env md \<lparr>all_structures = [], files = f0, diagnostics = []\<rparr> names = Inl e"
    using that by (simp add: split_eq)
  have c8: "(\<exists>pre k post s. names = pre @ k # post \<and>
         split_loop env md \<lparr>all_structures = [], files = f0, diagnostics = []\<rparr> pre = Inr s \<and>
         split_step env md s k = Inl e) \<or>
      f0 ''config.templ.mjs'' = None \<or> read_error env ''config.templ.mjs'' = Some e \<or>
      write_error env config_path = Some e"
    if "split env md f0 names = Inl e"
    using split_failure [OF that] split_loop_failure [of env md _ names e] by blast
  show ?thesis
    using split_step_invalid [of n env md st] split_step_missing [of n st env md]
      c3 c4 c4' c5 c6 c7 c8
    by blast
qed

theorem skipped_names_continue_errors_end_run_witness:
  "\<not> valid_name ''../etc'' \<and> valid_name ''cf'' \<and>
   [''original/oj.md'' \<mapsto> ''# A''] (original_path ''cf'') = None \<and>
   processable [''original/oj.md'' \<mapsto> ''# A''] ''oj'' \<and>
   (\<exists>t. split_loop no_errors heading_A
          \<lparr>all_structures = [], files = [''original/oj.md'' \<mapsto> ''# A''], diagnostics = []\<rparr>
          [''../etc'', ''oj'', ''cf''] = Inr t \<and>
        diagnostics t = [InvalidName ''../etc'', MissingSource ''cf''] \<and>
        map_of (all_structures t) ''oj'' = Some (save_l1 (doc_run heading_A ''oj'' ''# A'')) \<and>
        files t (file_path ''oj'' ''index'') = Some (guide_content ''oj'')) \<and>
   processable two_sources ''cf'' \<and> processable two_sources ''oj'' \<and>
   read_error undecodable_oj (original_path ''oj'') = Some (UnicodeDecodeError ''original/oj.md'') \<and>
   split_loop undecodable_oj heading_A
     \<lparr>all_structures = [], files = two_sources, diagnostics = []\<rparr> [''cf'', ''oj'', ''zz''] =
     Inl (UnicodeDecodeError ''original/oj.md'') \<and>
   doc_error
     (no_errors\<lparr>write_error := (\<lambda>p. if p = ''docs/oj/a.md'' then Some (OSError p) else None)\<rparr>)
     heading_A ''oj'' ''# A'' = Some (OSError ''docs/oj/a.md'') \<and>
   split_step
     (no_errors\<lparr>write_error := (\<lambda>p. if p = ''docs/oj/a.md'' then Some (OSError p) else None)\<rparr>)
     heading_A \<lparr>all_structures = [], files = two_sources, diagnostics = []\<rparr> ''oj'' =
     Inl (OSError ''docs/oj/a.md'')"
proof -
  let ?f = "[''original/oj.md'' \<mapsto> ''# A'']"
  let ?s = "\<lparr>all_structures = [], files = ?f, diagnostics = []\<rparr>"
  let ?s2 = "\<lparr>all_structures = [], files = two_sources, diagnostics = []\<rparr>"
  let ?e = "UnicodeDecodeError ''original/oj.md''"
  have v: "\<not> valid_name ''../etc''" "valid_name ''cf''" "valid_name ''oj''"
    by code_simp+
  have m: "?f (original_path ''cf'') = None" "?f (original_path ''oj'') = Some ''# A''"
    by (simp_all add: original_path_def)
  have p: "processable ?f ''oj''" using v m by (simp add: processable_def)
  have d: "skip_diags ?f [''../etc'', ''oj'', ''cf''] = [InvalidName ''../etc'', MissingSource ''cf'']"
    using v m by (simp add: skip_diags_def)
  have ok: "\<forall>k\<in>set [''../etc'', ''oj'', ''cf'']. processable (files ?s) k \<longrightarrow>
        read_error no_errors (original_path k) = None \<and> rmtree_error no_errors (base_dir k) = None \<and>
        mkdir_error no_errors (base_dir k) = None \<and>
        (\<forall>p. below k p \<longrightarrow> write_error no_errors p = None)"
    by (simp add: no_errors_def)
  note a = skipped_names_continue_errors_end_run [where env = no_errors and md = heading_A
      and st = ?s and names = "[''../etc'', ''oj'', ''cf'']", THEN conjunct2, THEN conjunct2,
      THEN conjunct1, THEN mp, OF ok]
  then obtain t where t: "split_loop no_errors heading_A ?s [''../etc'', ''oj'', ''cf''] = Inr t"
    "diagnostics t = diagnostics ?s @ skip_diags (files ?s) [''../etc'', ''oj'', ''cf'']"
    "\<forall>k\<in>set [''../etc'', ''oj'', ''cf'']. \<forall>c. valid_name k \<and> files ?s (original_path k) = Some c \<longrightarrow>
          map_of (all_structures t) k = Some (save_l1 (doc_run heading_A k c)) \<and>
          (\<forall>p. below k p \<longrightarrow> files t p = doc_files heading_A k c p)"
    by blast
  from t(3) v(3) m(2) have
    "map_of (all_structures t) ''oj'' = Some (save_l1 (doc_run heading_A ''oj'' ''# A''))"
    "files t (file_path ''oj'' ''index'') = doc_files heading_A ''oj'' ''# A'' (file_path ''oj'' ''index'')"
    by simp_all
  then have first: "\<exists>t. split_loop no_errors heading_A ?s [''../etc'', ''oj'', ''cf''] = Inr t \<and>
        diagnostics t = [InvalidName ''../etc'', MissingSource ''cf''] \<and>
        map_of (all_structures t) ''oj'' = Some (save_l1 (doc_run heading_A ''oj'' ''# A'')) \<and>
        files t (file_path ''oj'' ''index'') = Some (guide_content ''oj'')"
    using t(1,2) d by (intro exI [of _ t]) (simp add: doc_files_def)
  have o: "two_sources (original_path ''oj'') = Some ''# A''"
    "two_sources (original_path ''cf'') = Some ''# A''"
    by (simp_all add: two_sources_def original_path_def)
  have p2: "processable two_sources ''cf''" "processable two_sources ''oj''"
    using v o by (simp_all add: processable_def)
  have r: "read_error undecodable_oj (original_path ''oj'') = Some ?e"
    by (simp add: undecodable_oj_def original_path_def)
  have ok2: "\<forall>k\<in>set [''cf'']. processable (files ?s2) k \<longrightarrow>
        read_error undecodable_oj (original_path k) = None \<and>
        rmtree_error undecodable_oj (base_dir k) = None \<and>
        mkdir_error undecodable_oj (base_dir k) = None \<and>
        (\<forall>p. below k p \<longrightarrow> write_error undecodable_oj p = None)"
    by (simp add: undecodable_oj_def no_errors_def original_path_def)
  note b = skipped_names_continue_errors_end_run [where env = undecodable_oj and md = heading_A
      and st = ?s2 and names = "[''cf'']", THEN conjunct2, THEN conjunct2, THEN conjunct1,
      THEN mp, OF ok2]
  then obtain u where u: "split_loop undecodable_oj heading_A ?s2 [''cf''] = Inr u"
    "\<forall>p. (\<forall>k\<in>set [''cf'']. processable (files ?s2) k \<longrightarrow> \<not> below k p) \<longrightarrow>
          files u p = files ?s2 p"
    by blast
  from u(2) have "files u (original_path ''oj'') = two_sources (original_path ''oj'')"
    by simp
  then have pu: "processable (files u) ''oj''" using v(3) o(1) by (simp add: processable_def)
  have "split_step undecodable_oj heading_A u ''oj'' = Inl ?e"
    using skipped_names_continue_errors_end_run [where env = undecodable_oj and md = heading_A
      and st = u and n = "''oj''" and e = ?e] pu r
    by blast
  then have last: "split_loop undecodable_oj heading_A ?s2 ([''cf''] @ ''oj'' # [''zz'']) = Inl ?e"
    using skipped_names_continue_errors_end_run [where env = undecodable_oj and md = heading_A
      and st = ?s2 and pre = "[''cf'']" and s = u and n = "''oj''" and e = ?e and post = "[''zz'']"] u(1)
    by blast
  let ?w = "no_errors\<lparr>write_error :=
      (\<lambda>p. if p = ''docs/oj/a.md'' then Some (OSError p) else None)\<rparr>"
  have de: "doc_error ?w heading_A ''oj'' ''# A'' = Some (OSError ''docs/oj/a.md'')"
    by code_simp
  have ws: "split_step ?w heading_A ?s2 ''oj'' = Inl (OSError ''docs/oj/a.md'')"
    using skipped_names_continue_errors_end_run [where env = ?w and md = heading_A
      and st = ?s2 and n = "''oj''" and c = "''# A''" and e = "OSError ''docs/oj/a.md''"]
      v(3) o(1) de
    by simp
  show ?thesis using v(1,2) m(1) p first p2 r last de ws by simp
qed

section \<open>Running the pipeline again\<close>

lemma valid_not_below_config: "valid_name n \<Longrightarrow> \<not> below n config_path"
proof
  assume v: "valid_name n" and b: "below n config_path"
  from v obtain c n' where n: "n = c # n'" and c: "name_char c"
    by (cases n) (auto simp: valid_name_def split: if_splits)
  from b have "c = CHR ''.''"
    by (simp add: below_def base_dir_def config_path_def n)
  moreover have "\<not> name_char (CHR ''.'')" by code_simp
  ultimately show False using c by simp
qed

lemma split_loop_sim:
  assumes "all_structures s = all_structures s'" "diagnostics s = diagnostics s'"
    "\<forall>p. p \<noteq> config_path \<and> (\<forall>n\<in>set names. processable (files s) n \<longrightarrow> \<not> below n p) \<longrightarrow>
         files s p = files s' p"
    "split_loop env md s names = Inr t"
  shows "\<exists>t'. split_loop env md s' names = Inr t' \<and>
           all_structures t = all_structures t' \<and> diagnostics t = diagnostics t' \<and>
           (\<forall>p. p \<noteq> config_path \<longrightarrow> files t p = files t' p)"
  using assms
proof (induction names arbitrary: s s')
  case Nil
  then show ?case by simp
next
  case (Cons n ns)
  from Cons.prems(4) obtain s1 where s1: "split_step env md s n = Inr s1"
    and l: "split_loop env md s1 ns = Inr t"
    by (auto split: sum.splits)
  have o: "files s (original_path m) = files s' (original_path m)" for m
  proof -
    have "original_path m \<noteq> config_path" by (simp add: original_path_def config_path_def)
    then show ?thesis using Cons.prems(3) by simp
  qed
  have pc: "processable (files s') = processable (files s)"
    by (rule processable_cong) (simp add: o)
  have sc: "skip_diags (files s') = skip_diags (files s)"
    by (rule skip_diags_cong) (simp add: o)
  show ?case
  proof (cases rule: split_step_cases [where st = s and name = n and md = md and env = env])
    case (skipped d)
    have s': "split_step env md s' n = Inr (s'\<lparr>diagnostics := diagnostics s' @ [d]\<rparr>)"
      using skipped(1,3) unfolding pc [symmetric] sc [symmetric]
      by (cases rule: split_step_cases [where st = s' and name = n and md = md and env = env])
        simp_all
    let ?s1' = "s'\<lparr>diagnostics := diagnostics s' @ [d]\<rparr>"
    have e: "s1 = s\<lparr>diagnostics := diagnostics s @ [d]\<rparr>" using skipped(2) s1 by simp
    have "\<exists>t'. split_loop env md ?s1' ns = Inr t' \<and>
           all_structures t = all_structures t' \<and> diagnostics t = diagnostics t' \<and>
           (\<forall>p. p \<noteq> config_path \<longrightarrow> files t p = files t' p)"
      using Cons.prems(1,2,3) skipped(1) l by (intro Cons.IH [of s1]) (simp_all add: e)
    then show ?thesis using s' by simp
  next
    case (processed content)
    let ?s1' = "s'\<lparr>all_structures :=
                   AList.update n (save_l1 (doc_run md n content)) (all_structures s'),
                 files := (\<lambda>p. if below n p then doc_files md n content p else files s' p)\<rparr>"
    have e: "s1 = s\<lparr>all_structures :=
                   AList.update n (save_l1 (doc_run md n content)) (all_structures s),
                 files := (\<lambda>p. if below n p then doc_files md n content p else files s p)\<rparr>"
      using processed(4) s1 by simp
    have s': "split_step env md s' n = Inr ?s1'"
      using split_step_processable [of n s' content env md] processed(1,2,3) o [of n]
      by (simp add: processable_def)
    have p1: "processable (files s1) = processable (files s)"
      by (rule processable_cong) (simp add: e)
    have "\<exists>t'. split_loop env md ?s1' ns = Inr t' \<and>
           all_structures t = all_structures t' \<and> diagnostics t = diagnostics t' \<and>
           (\<forall>p. p \<noteq> config_path \<longrightarrow> files t p = files t' p)"
    proof (intro Cons.IH [of s1])
      show "all_structures s1 = all_structures ?s1'" using Cons.prems(1) by (simp add: e)
      show "diagnostics s1 = diagnostics ?s1'" using Cons.prems(2) by (simp add: e)
      show "\<forall>p. p \<noteq> config_path \<and> (\<forall>n\<in>set ns. processable (files s1) n \<longrightarrow> \<not> below n p) \<longrightarrow>
         files s1 p = files ?s1' p"
        unfolding p1 using Cons.prems(3) processed(1) by (auto simp: e)
      show "split_loop env md s1 ns = Inr t" by (rule l)
    qed
    then show ?thesis using s' by simp
  next
    case (failed content e)
    then show ?thesis using s1 by simp
  qed
qed

text \<open>
  C9. When a run of the pipeline on a file system and a list of names has ended with a
  file system, a configuration fragment and messages, the run on that file system and the
  same names ends with the same file system, the same fragment and the same messages: the
  sources are never written, the directory of every processed document is emptied and
  written anew from its source, and the configuration is spliced from the same template.
  This holds whatever calls into the file system raise, as long as they are the same in
  both runs.
\<close>

theorem rebuild_idempotent:
  assumes "split env md f0 names = Inr (f1, frag, diags)"
  shows "split env md f1 names = Inr (f1, frag, diags)"
proof -
  let ?s0 = "\<lparr>all_structures = [], files = f0, diagnostics = []\<rparr>"
  let ?s1 = "\<lparr>all_structures = [], files = f1, diagnostics = []\<rparr>"
  from assms obtain t where t: "split_loop env md ?s0 names = Inr t"
    by (auto simp: split_eq split: sum.splits)
  have frame0: "files t p = f0 p" if "\<forall>n\<in>set names. processable f0 n \<longrightarrow> \<not> below n p" for p
    using split_loop_frame [OF t, of p] that by simp
  have f1: "f1 p = files t p" if "p \<noteq> config_path" for p
    using assms t that
    by (auto simp: split_eq update_config_file_eq split: if_splits option.splits)
  have "\<exists>u'. split_loop env md ?s1 names = Inr u' \<and>
           all_structures t = all_structures u' \<and> diagnostics t = diagnostics u' \<and>
           (\<forall>p. p \<noteq> config_path \<longrightarrow> files t p = files u' p)"
  proof (rule split_loop_sim [where s = ?s0])
    show "all_structures ?s0 = all_structures ?s1" "diagnostics ?s0 = diagnostics ?s1"
      by simp_all
    show "\<forall>p. p \<noteq> config_path \<and> (\<forall>n\<in>set names. processable (files ?s0) n \<longrightarrow> \<not> below n p) \<longrightarrow>
         files ?s0 p = files ?s1 p"
      using frame0 f1 by simp
    show "split_loop env md ?s0 names = Inr t" by (rule t)
  qed
  then obtain t' where t': "split_loop env md ?s1 names = Inr t'"
    and a: "all_structures t = all_structures t'" and d: "diagnostics t = diagnostics t'"
    and ag: "\<And>p. p \<noteq> config_path \<Longrightarrow> files t p = files t' p"
    by auto
  have cfg: "files t' config_path = f1 config_path"
    using split_loop_frame [OF t', of config_path] valid_not_below_config
    by (simp add: processable_def)
  have tm': "files t' ''config.templ.mjs'' = files t ''config.templ.mjs''"
    using ag [of "''config.templ.mjs''"] by (simp add: config_path_def)
  show ?thesis
  proof (cases "all_structures t = []")
    case True
    then have r: "f1 = files t" "frag = None" "diags = diagnostics t"
      using assms t by (simp_all add: split_eq)
    have "files t' = f1"
    proof
      fix p
      show "files t' p = f1 p"
        using cfg ag [of p] r(1) by (cases "p = config_path") simp_all
    qed
    then show ?thesis using True t' a d r by (simp add: split_eq)
  next
    case False
    from assms t False obtain template where tp: "files t ''config.templ.mjs'' = Some template"
      and ok: "read_error env ''config.templ.mjs'' = None" "write_error env config_path = None"
      and r: "f1 = (files t)(config_path \<mapsto>
          str_replace ''// template: sidebar'' (generate_sidebar_config (all_structures t)) template)"
        "frag = Some (generate_sidebar_config (all_structures t))" "diags = diagnostics t"
      by (auto simp: split_eq update_config_file_eq split: option.splits)
    have "(files t')(config_path \<mapsto>
          str_replace ''// template: sidebar'' (generate_sidebar_config (all_structures t)) template) =
        f1"
      unfolding r(1) using ag by (auto simp: fun_eq_iff)
    then show ?thesis using False t' a d r(2,3) tp tm' ok
      by (simp add: split_eq update_config_file_eq)
  qed
qed

theorem rebuild_idempotent_witness:
  "\<exists>f1 frag diags.
     split no_errors (\<lambda>c. [Heading 1 [Raw ''A'']])
       [''original/oj.md'' \<mapsto> ''# A'', ''config.templ.mjs'' \<mapsto> ''// template: sidebar'']
       [''oj'', ''cf''] = Inr (f1, frag, diags) \<and>
     split no_errors (\<lambda>c. [Heading 1 [Raw ''A'']]) f1 [''oj'', ''cf''] = Inr (f1, frag, diags)"
proof -
  let ?f = "[''original/oj.md'' \<mapsto> ''# A'', ''config.templ.mjs'' \<mapsto> ''// template: sidebar'']"
  let ?md = "\<lambda>c::string. [Heading 1 [Raw ''A'']]"
  have "doc_error no_errors ?md n c = None" for n c
    by (rule doc_error_None) (simp_all add: no_errors_def)
  then have "\<exists>r. split no_errors ?md ?f [''oj'', ''cf''] = Inr r"
    by (intro split_returns) (simp_all add: no_errors_def)
  then obtain f1 frag diags where h: "split no_errors ?md ?f [''oj'', ''cf''] = Inr (f1, frag, diags)"
    by (metis prod_cases3)
  from rebuild_idempotent [OF h] h show ?thesis by blast
qed

end
